theory Spec2Isabelle
  imports Main "HOL-Library.Sublist"
begin

section \<open>Errors\<close>

text \<open>
  Python exceptions that the modelled functions can raise are values of this type; a
  function that can raise returns \<open>error + 'a\<close> with \<open>Inl\<close> for the exception.
\<close>

datatype error =
    IndexError
  | ValueError
  | AttributeError
  | TypeError
  | JSONDecodeError
  | GeminiAPIError
  | OSError
  | TranscriptionError
  | OtherException

section \<open>Silence-aware splitter (src/modules/audio\_splitter.py)\<close>

text \<open>
  The decoded audio is a pydub \<open>AudioSegment\<close>. The splitter reads three things from it:
  its length in milliseconds, the silent ranges that pydub's \<open>detect_silence\<close> finds in a
  slice, and the RMS volume of a slice. pydub is not part of the repository, so an audio
  value carries these three observations:
  \<^item> \<open>alen a\<close> is \<open>len(audio)\<close>;
  \<^item> \<open>silence a s e th\<close> is
    \<open>detect_silence(audio[s:e], min_silence_len=500, silence_thresh=th)\<close>, a list of
    \<open>(start, end)\<close> pairs relative to the slice;
  \<^item> \<open>rms a s e\<close> is \<open>audio[s:e].rms\<close>.
\<close>

record audio =
  alen :: int
  silence :: "int \<Rightarrow> int \<Rightarrow> int \<Rightarrow> (int \<times> int) list"
  rms :: "int \<Rightarrow> int \<Rightarrow> int"

definition min_silence_len :: int where
  "min_silence_len = 500"

definition margin_seconds :: int where
  "margin_seconds = 10"

definition margin_ms :: int where
  "margin_ms = margin_seconds * 1000"

definition thresholds :: "int list" where
  "thresholds = [-40, -35, -30, -25]"

definition window_size :: int where
  "window_size = 100"

text \<open>Python's \<open>range(start, stop, step)\<close> for a positive step, as a list.\<close>

function py_range :: "int \<Rightarrow> int \<Rightarrow> int \<Rightarrow> int list" where
  "py_range start stop step =
     (if 0 < step \<and> start < stop then start # py_range (start + step) stop step else [])"
  by pat_completeness auto
termination
  by (relation "measure (\<lambda>(start, stop, step). nat (stop - start))") auto

declare py_range.simps [simp del]

text \<open>
  \<open>_select_best_silence\<close>: the loop keeps the best distance (\<open>None\<close> is the initial
  \<open>float('inf')\<close>) and the best position, and replaces them only on a strictly smaller
  distance. \<open>//\<close> is floor division, which is \<open>div\<close> on \<open>int\<close>.
\<close>

fun select_best_loop :: "(int \<times> int) list \<Rightarrow> int \<Rightarrow> int option \<Rightarrow> int \<Rightarrow> int" where
  "select_best_loop [] target_position best_distance best_position = best_position"
| "select_best_loop ((start, end) # rest) target_position best_distance best_position =
     (let mid_position = (start + end) div 2;
          distance = \<bar>mid_position - target_position\<bar>
      in if (case best_distance of None \<Rightarrow> True | Some d \<Rightarrow> distance < d)
         then select_best_loop rest target_position (Some distance) mid_position
         else select_best_loop rest target_position best_distance best_position)"

definition select_best_silence :: "(int \<times> int) list \<Rightarrow> int \<Rightarrow> int" where
  "select_best_silence silence_ranges target_position =
     select_best_loop silence_ranges target_position None target_position"

text \<open>
  \<open>_find_min_volume_position\<close> on the slice \<open>audio[s:e]\<close>: windows of 100 ms at
  \<open>i = 0, 100, ...\<close> below \<open>len - 100\<close>; the first strictly smaller volume wins.
\<close>

fun min_volume_loop :: "audio \<Rightarrow> int \<Rightarrow> int list \<Rightarrow> int option \<Rightarrow> int \<Rightarrow> int" where
  "min_volume_loop a s [] min_volume min_position = min_position"
| "min_volume_loop a s (i # rest) min_volume min_position =
     (let volume = rms a (s + i) (s + i + window_size)
      in if (case min_volume of None \<Rightarrow> True | Some v \<Rightarrow> volume < v)
         then min_volume_loop a s rest (Some volume) (i + window_size div 2)
         else min_volume_loop a s rest min_volume min_position)"

definition find_min_volume_position :: "audio \<Rightarrow> int \<Rightarrow> int \<Rightarrow> int" where
  "find_min_volume_position a s e =
     min_volume_loop a s (py_range 0 ((e - s) - window_size) window_size) None 0"

text \<open>
  The threshold loop of \<open>_find_optimal_split_point\<close>: it stops at the first threshold
  with a non-empty result, and otherwise leaves the result of the last threshold.
\<close>

fun scan_thresholds :: "(int \<Rightarrow> (int \<times> int) list) \<Rightarrow> int list \<Rightarrow> (int \<times> int) list \<Rightarrow> (int \<times> int) list" where
  "scan_thresholds detect [] silence_ranges = silence_ranges"
| "scan_thresholds detect (thresh # rest) silence_ranges =
     (let found = detect thresh
      in if found \<noteq> [] then found else scan_thresholds detect rest found)"

definition search_start_of :: "audio \<Rightarrow> int \<Rightarrow> int" where
  "search_start_of a target_ms = max 0 (min target_ms (alen a) - margin_ms)"

definition search_end_of :: "audio \<Rightarrow> int \<Rightarrow> int" where
  "search_end_of a target_ms = min (alen a) (min target_ms (alen a) + margin_ms)"

definition find_optimal_split_point :: "audio \<Rightarrow> int \<Rightarrow> int" where
  "find_optimal_split_point a target_ms0 =
     (let target_ms = min target_ms0 (alen a);
          search_start = max 0 (target_ms - margin_ms);
          search_end = min (alen a) (target_ms + margin_ms)
      in if search_end - search_start < min_silence_len * 2 then target_ms
         else
           let silence_ranges = scan_thresholds (silence a search_start search_end) thresholds []
           in if silence_ranges = []
              then search_start + find_min_volume_position a search_start search_end
              else search_start + select_best_silence silence_ranges (target_ms - search_start))"

text \<open>
  \<open>_determine_all_split_points\<close>: the first point is kept, the points at indices
  \<open>1 .. len - 2\<close> are adjusted, the last point is kept. \<open>theoretical_points[0]\<close> raises
  on an empty list.
\<close>

fun determine_all_split_points :: "audio \<Rightarrow> int list \<Rightarrow> error + int list" where
  "determine_all_split_points a [] = Inl IndexError"
| "determine_all_split_points a (first # rest) =
     Inr (first # map (find_optimal_split_point a) (butlast rest)
            @ (if rest = [] then [] else [last rest]))"

text \<open>
  The theoretical points of \<open>split_audio\<close>: \<open>range(0, audio_length_ms, segment_length_ms)\<close>
  with the audio length appended when it is not the last point. \<open>range\<close> raises ValueError
  on a zero step, and \<open>theoretical_split_points[-1]\<close> raises IndexError on an empty list.
\<close>

definition theoretical_split_points :: "int \<Rightarrow> int \<Rightarrow> error + int list" where
  "theoretical_split_points audio_length_ms segment_length_ms =
     (if segment_length_ms = 0 then Inl ValueError
      else let points = py_range 0 audio_length_ms segment_length_ms
           in if points = [] then Inl IndexError
              else if last points \<noteq> audio_length_ms then Inr (points @ [audio_length_ms])
              else Inr points)"

text \<open>
  The split plan of \<open>split_audio\<close> for an \<open>AudioSplitter(segment_length_seconds)\<close>:
  \<open>segment_length_ms = segment_length_seconds * 1000\<close>.
\<close>

definition split_plan :: "audio \<Rightarrow> int \<Rightarrow> error + int list" where
  "split_plan a segment_length_seconds =
     (case theoretical_split_points (alen a) (segment_length_seconds * 1000) of
        Inl err \<Rightarrow> Inl err
      | Inr theoretical \<Rightarrow> determine_all_split_points a theoretical)"

text \<open>
  What pydub's \<open>detect_silence\<close> returns for a slice of length \<open>e - s\<close>: ranges inside
  the slice, each at least \<open>min_silence_len\<close> long.
\<close>

definition silence_ok :: "audio \<Rightarrow> bool" where
  "silence_ok a \<longleftrightarrow>
     (\<forall>s e th. \<forall>(x, y) \<in> set (silence a s e th). 0 \<le> x \<and> x + min_silence_len \<le> y \<and> y \<le> e - s)"

text \<open>An entirely silent recording of the given length: every slice is one silent range.\<close>

definition silent_audio :: "int \<Rightarrow> audio" where
  "silent_audio n =
     \<lparr>alen = n,
      silence = (\<lambda>s e th. if e - s < min_silence_len then [] else [(0, e - s)]),
      rms = (\<lambda>s e. 0)\<rparr>"

section \<open>Strings\<close>

text \<open>
  A Python \<open>str\<close> is a sequence of Unicode code points, and the program's literals
  include Japanese text, so a string is a list of code points. \<open>asc\<close> turns an ASCII
  literal into such a list.
\<close>

type_synonym ustr = "nat list"

definition asc :: "string \<Rightarrow> ustr" where
  "asc s = map of_char s"

text \<open>
  The characters for which \<open>str.isspace\<close> holds. \<open>str.split()\<close>, \<open>str.strip()\<close> and
  the \<open>\s\<close> of a \<open>str\<close> pattern all use this set.
\<close>

definition is_space :: "nat \<Rightarrow> bool" where
  "is_space c \<longleftrightarrow>
     (9 \<le> c \<and> c \<le> 13) \<or> (28 \<le> c \<and> c \<le> 32) \<or> c = 133 \<or> c = 160 \<or> c = 5760 \<or>
     (8192 \<le> c \<and> c \<le> 8202) \<or> c = 8232 \<or> c = 8233 \<or> c = 8239 \<or> c = 8287 \<or> c = 12288"

text \<open>\<open>sub in text\<close>.\<close>

fun contains :: "ustr \<Rightarrow> ustr \<Rightarrow> bool" where
  "contains [] sub = (sub = [])"
| "contains (c # cs) sub = (prefix sub (c # cs) \<or> contains cs sub)"

text \<open>
  \<open>text.count(sub)\<close> counts non-overlapping occurrences from the left. After an
  occurrence the scan skips the rest of it (\<open>skip\<close> characters).
\<close>

fun count_from :: "ustr \<Rightarrow> ustr \<Rightarrow> nat \<Rightarrow> nat" where
  "count_from sub [] skip = 0"
| "count_from sub (c # cs) skip =
     (if 0 < skip then count_from sub cs (skip - 1)
      else if prefix sub (c # cs) then 1 + count_from sub cs (length sub - 1)
      else count_from sub cs 0)"

definition py_count :: "ustr \<Rightarrow> ustr \<Rightarrow> nat" where
  "py_count text sub = (if sub = [] then length text + 1 else count_from sub text 0)"

text \<open>\<open>text.find(sub, start)\<close> for \<open>start \<ge> 0\<close>: the lowest index, or \<open>-1\<close>.\<close>

fun find_at :: "ustr \<Rightarrow> ustr \<Rightarrow> nat \<Rightarrow> nat option" where
  "find_at sub [] i = (if sub = [] then Some i else None)"
| "find_at sub (c # cs) i = (if prefix sub (c # cs) then Some i else find_at sub cs (i + 1))"

definition py_find :: "ustr \<Rightarrow> ustr \<Rightarrow> int \<Rightarrow> int" where
  "py_find text sub start =
     (if int (length text) < start then -1
      else case find_at sub (drop (nat start) text) (nat start) of
             Some i \<Rightarrow> int i
           | None \<Rightarrow> -1)"

text \<open>\<open>text.split()\<close>: the maximal runs of non-whitespace characters.\<close>

fun split_acc :: "ustr \<Rightarrow> ustr \<Rightarrow> ustr list" where
  "split_acc [] word = (if word = [] then [] else [word])"
| "split_acc (c # cs) word =
     (if is_space c then (if word = [] then split_acc cs [] else word # split_acc cs [])
      else split_acc cs (word @ [c]))"

definition py_split :: "ustr \<Rightarrow> ustr list" where
  "py_split text = split_acc text []"

text \<open>\<open>text.strip()\<close>.\<close>

definition py_strip :: "ustr \<Rightarrow> ustr" where
  "py_strip text = rev (dropWhile is_space (rev (dropWhile is_space text)))"

text \<open>\<open>re.sub(r'\s+', ' ', text)\<close>: every run of whitespace becomes one space.\<close>

fun collapse_ws :: "ustr \<Rightarrow> bool \<Rightarrow> ustr" where
  "collapse_ws [] in_run = []"
| "collapse_ws (c # cs) in_run =
     (if is_space c then (if in_run then collapse_ws cs True else 32 # collapse_ws cs True)
      else c # collapse_ws cs False)"

text \<open>\<open>" ".join([token] * n)\<close>.\<close>

fun repeat_token :: "ustr \<Rightarrow> nat \<Rightarrow> ustr" where
  "repeat_token token 0 = []"
| "repeat_token token (Suc 0) = token"
| "repeat_token token (Suc (Suc n)) = token @ 32 # repeat_token token (Suc n)"

text \<open>\<open>str(n)\<close> for a natural number.\<close>

function dec :: "nat \<Rightarrow> ustr" where
  "dec n = (if n < 10 then [48 + n] else dec (n div 10) @ [48 + n mod 10])"
  by pat_completeness auto
termination
  by (relation "measure id") auto

declare dec.simps [simp del]

section \<open>Defect detector (src/services/transcription.py)\<close>

definition problem_phrases :: "ustr list" where
  \<comment> \<open>the five filler phrases, each two kana followed by the full stop U+3002\<close>
  "problem_phrases =
     [[12358, 12435, 12290], [12399, 12356, 12290], [12360, 12360, 12290],
      [12354, 12398, 12290], [12360, 12540, 12290]]"

definition failure_marker :: ustr where
  "failure_marker = asc ''Take minutes of the meeting''"

text \<open>
  The word loop of \<open>_check_single_utterance_repetition\<close>: words of one character are
  skipped; a word that occurs 80 times or more in the list of words is a defect.
\<close>

fun word_loop :: "ustr list \<Rightarrow> ustr list \<Rightarrow> bool" where
  "word_loop words [] = False"
| "word_loop words (word # rest) =
     (if length word \<le> 1 then word_loop words rest
      else if 80 \<le> count_list words word then True
      else word_loop words rest)"

fun utterance_phrase_loop :: "ustr \<Rightarrow> ustr list \<Rightarrow> bool" where
  "utterance_phrase_loop utterance [] = False"
| "utterance_phrase_loop utterance (phrase # rest) =
     (if 70 \<le> py_count utterance phrase then True else utterance_phrase_loop utterance rest)"

definition check_single_utterance_repetition :: "ustr \<Rightarrow> bool" where
  "check_single_utterance_repetition utterance =
     (let words = py_split utterance
      in if word_loop words words then True
         else utterance_phrase_loop utterance problem_phrases)"

text \<open>
  \<open>_check_whole_text_repetition\<close>: for each phrase of length at least 2, seventy
  consecutive copies anywhere in the text, or 200 occurrences in all, are a defect.
\<close>

fun whole_text_loop :: "ustr \<Rightarrow> ustr list \<Rightarrow> bool" where
  "whole_text_loop text [] = False"
| "whole_text_loop text (phrase # rest) =
     (if 2 \<le> length phrase then
        (if contains text (concat (replicate 70 phrase)) then True
         else if 200 \<le> py_count text phrase then True
         else whole_text_loop text rest)
      else whole_text_loop text rest)"

definition check_whole_text_repetition :: "ustr \<Rightarrow> bool" where
  "check_whole_text_repetition text = whole_text_loop text problem_phrases"

text \<open>
  The pattern \<open>"utterance"\s*:\s*"((?:[^"\\]|\\.)*)(?:"|$)\<close> of
  \<open>is_problematic_transcription\<close>.

  \<open>utterance_body\<close> is the greedy group: it takes characters other than the quote and the
  backslash, and a backslash together with the next character when that is not a newline
  (\<open>.\<close> does not match a newline). It returns the captured text and what follows it.
  The group stops at the end of the text, at a quote, or at a backslash that has no
  character to pair with; only in the last case can the closing \<open>(?:"|$)\<close> not match,
  and giving characters back does not help there.

  \<open>match_utterance\<close> matches the whole pattern at the start of a text and returns the
  group together with the number of characters matched.
\<close>

fun utterance_body :: "ustr \<Rightarrow> ustr \<times> ustr" where
  "utterance_body [] = ([], [])"
| "utterance_body [c] = (if c = 34 \<or> c = 92 then ([], [c]) else ([c], []))"
| "utterance_body (c # d # ds) =
     (if c = 34 then ([], c # d # ds)
      else if c = 92 then
        (if d = 10 then ([], c # d # ds)
         else case utterance_body ds of (u, r) \<Rightarrow> (c # d # u, r))
      else case utterance_body (d # ds) of (u, r) \<Rightarrow> (c # u, r))"

fun strip_prefix :: "ustr \<Rightarrow> ustr \<Rightarrow> ustr option" where
  "strip_prefix [] text = Some text"
| "strip_prefix (p # ps) [] = None"
| "strip_prefix (p # ps) (c # cs) = (if p = c then strip_prefix ps cs else None)"

text \<open>
  \<open>key\s*:\s*"\<close> at the start of a text, for a literal \<open>key\<close>: the whitespace runs are
  followed by a character that is not whitespace, so the greedy match is the only one.
\<close>

definition match_field_header :: "ustr \<Rightarrow> ustr \<Rightarrow> ustr option" where
  "match_field_header key text =
     (case strip_prefix key text of
        None \<Rightarrow> None
      | Some r1 \<Rightarrow>
          (case dropWhile is_space r1 of
             [] \<Rightarrow> None
           | c1 # r2 \<Rightarrow>
               if c1 \<noteq> 58 then None
               else (case dropWhile is_space r2 of
                       [] \<Rightarrow> None
                     | c2 # r3 \<Rightarrow> if c2 \<noteq> 34 then None else Some r3)))"

definition match_utterance :: "ustr \<Rightarrow> (ustr \<times> nat) option" where
  "match_utterance text =
     (case match_field_header (asc ''\"utterance\"'') text of
        None \<Rightarrow> None
      | Some r \<Rightarrow>
          (case utterance_body r of
             (u, []) \<Rightarrow> Some (u, length text)
           | (u, c # rest) \<Rightarrow>
               if c = 34 then Some (u, length text - length rest) else None))"

text \<open>\<open>re.findall\<close> with that pattern: the groups of the non-overlapping matches.\<close>

fun find_utterances_from :: "ustr \<Rightarrow> nat \<Rightarrow> ustr list" where
  "find_utterances_from [] skip = []"
| "find_utterances_from (c # cs) skip =
     (if 0 < skip then find_utterances_from cs (skip - 1)
      else case match_utterance (c # cs) of
             Some (u, n) \<Rightarrow> u # find_utterances_from cs (n - 1)
           | None \<Rightarrow> find_utterances_from cs 0)"

definition find_utterances :: "ustr \<Rightarrow> ustr list" where
  "find_utterances text = find_utterances_from text 0"

fun utterance_loop :: "ustr list \<Rightarrow> bool" where
  "utterance_loop [] = False"
| "utterance_loop (utterance # rest) =
     (if check_single_utterance_repetition utterance then True else utterance_loop rest)"

definition is_problematic_transcription :: "ustr \<Rightarrow> bool" where
  "is_problematic_transcription text =
     (if text = [] then False
      else if contains text failure_marker then True
      else if utterance_loop (find_utterances text) then True
      else check_whole_text_repetition text)"

text \<open>
  A text that holds one utterance: \<open>{"utterance":"\<close> followed by the utterance and
  \<open>"}\<close>.
\<close>

definition single_utterance_text :: "ustr \<Rightarrow> ustr" where
  "single_utterance_text utterance = asc ''{\"utterance\":\"'' @ utterance @ asc ''\"}''"

section \<open>Per-segment transcription loop (src/services/transcription.py)\<close>

text \<open>
  The loop of \<open>_process_with_gemini\<close> calls three things that are not modelled in
  detail and are parameters of the model:
  \<^item> \<open>transcribe_audio env file k\<close> is what the \<open>k\<close>-th call of the run to
    \<open>gemini_api.transcribe_audio\<close> does when given \<open>file\<close>: it raises, returns
    \<open>None\<close>, or returns a text;
  \<^item> \<open>add_speaker_identifier env text identifier\<close> is the module's labelling function
    (JSON and regular-expression rewriting of speaker names);
  \<^item> \<open>path_name env file\<close> is \<open>Path(file).name\<close>.
  The state holds the number of calls made so far and the flag
  \<open>has_reached_max_retries\<close>.
\<close>

datatype api_reply = Raises | ReturnsNone | Returns ustr

record env =
  transcribe_audio :: "ustr \<Rightarrow> nat \<Rightarrow> api_reply"
  add_speaker_identifier :: "ustr \<Rightarrow> ustr \<Rightarrow> ustr"
  path_name :: "ustr \<Rightarrow> ustr"

record run_state =
  calls :: nat
  has_reached_max_retries :: bool

record segment_result =
  segment :: nat
  segment_file :: ustr
  segment_text_field :: ustr

definition max_retries :: nat where
  "max_retries = 2"

text \<open>
  \<open>re.sub(r'\s+', ' ', segment_text_raw).strip() if segment_text_raw else ""\<close>
\<close>

fun normalize_reply :: "api_reply \<Rightarrow> ustr" where
  "normalize_reply (Returns raw) = (if raw = [] then [] else py_strip (collapse_ws raw False))"
| "normalize_reply ReturnsNone = []"
| "normalize_reply Raises = []"

text \<open>
  The attempt loop \<open>for attempt in range(max_retries + 1)\<close> for one segment.
  \<open>segment_text\<close> is \<open>None\<close> until an attempt assigns it. A defective text with
  attempts left continues the loop; a defective text on the last attempt sets the flag and
  leaves the loop with that text; a usable (or empty) text leaves the loop. A raised
  exception is caught: with attempts left the loop goes on, on the last attempt the flag
  is set and the text becomes empty.
\<close>

fun attempt_loop :: "env \<Rightarrow> ustr \<Rightarrow> nat list \<Rightarrow> ustr option \<Rightarrow> run_state \<Rightarrow> ustr option \<times> run_state" where
  "attempt_loop e file [] segment_text st = (segment_text, st)"
| "attempt_loop e file (attempt # rest) segment_text st =
     (let reply = transcribe_audio e file (calls st);
          st1 = st\<lparr>calls := calls st + 1\<rparr>
      in if reply = Raises then
           (if attempt < max_retries then attempt_loop e file rest segment_text st1
            else attempt_loop e file rest (Some []) (st1\<lparr>has_reached_max_retries := True\<rparr>))
         else
           let new_text = normalize_reply reply
           in if new_text \<noteq> [] \<and> is_problematic_transcription new_text then
                (if attempt < max_retries then attempt_loop e file rest (Some new_text) st1
                 else (Some new_text, st1\<lparr>has_reached_max_retries := True\<rparr>))
              else (Some new_text, st1))"

definition transcribe_segment :: "env \<Rightarrow> ustr \<Rightarrow> run_state \<Rightarrow> ustr option \<times> run_state" where
  "transcribe_segment e file st = attempt_loop e file [0..<max_retries + 1] None st"

text \<open>
  The segment loop \<open>for i, segment_file in enumerate(split_files, 1)\<close>: a segment whose
  text is \<open>None\<close> or empty is skipped (\<open>continue\<close>); otherwise an entry is appended.
\<close>

fun segment_loop :: "env \<Rightarrow> nat \<Rightarrow> ustr list \<Rightarrow> segment_result list \<Rightarrow> run_state \<Rightarrow> segment_result list \<times> run_state" where
  "segment_loop e i [] all_transcriptions st = (all_transcriptions, st)"
| "segment_loop e i (file # files) all_transcriptions st =
     (case transcribe_segment e file st of
        (segment_text, st1) \<Rightarrow>
          if segment_text = None \<or> segment_text = Some [] then
            segment_loop e (i + 1) files all_transcriptions st1
          else
            segment_loop e (i + 1) files
              (all_transcriptions @
                 [\<lparr>segment = i, segment_file = path_name e file,
                   segment_text_field = add_speaker_identifier e (the segment_text) (asc ''seg'' @ dec i)\<rparr>])
              st1)"

definition initial_state :: run_state where
  "initial_state = \<lparr>calls = 0, has_reached_max_retries = False\<rparr>"

definition transcribe_segments :: "env \<Rightarrow> ustr list \<Rightarrow> segment_result list \<times> run_state" where
  "transcribe_segments e split_files = segment_loop e 1 split_files [] initial_state"

text \<open>The final text of each segment in turn, with the state threaded as the loop does.\<close>

fun segment_texts :: "env \<Rightarrow> ustr list \<Rightarrow> run_state \<Rightarrow> ustr option list" where
  "segment_texts e [] st = []"
| "segment_texts e (file # files) st =
     (case transcribe_segment e file st of
        (segment_text, st1) \<Rightarrow> segment_text # segment_texts e files st1)"

text \<open>An attempt is defective when it returns a non-empty text that the detector rejects.\<close>

definition defective_reply :: "api_reply \<Rightarrow> bool" where
  "defective_reply reply \<longleftrightarrow>
     reply \<noteq> Raises \<and> normalize_reply reply \<noteq> [] \<and> is_problematic_transcription (normalize_reply reply)"

text \<open>An attempt fails when the call raises or its text is defective; otherwise it is usable.\<close>

definition failed_reply :: "api_reply \<Rightarrow> bool" where
  "failed_reply reply \<longleftrightarrow> reply = Raises \<or> defective_reply reply"

text \<open>A segment is kept in the result when its final text is neither \<open>None\<close> nor empty.\<close>

definition kept :: "nat \<times> ustr option \<Rightarrow> bool" where
  "kept p \<longleftrightarrow> snd p \<noteq> None \<and> snd p \<noteq> Some []"

text \<open>
  An environment for concrete runs: the calls to the transcription API answer from a
  fixed list of replies (and raise afterwards); the labelling function leaves a text
  without speaker labels as it is; a file name without directories is its own name.
\<close>

definition scripted_env :: "api_reply list \<Rightarrow> env" where
  "scripted_env replies =
     \<lparr>transcribe_audio = (\<lambda>file k. if k < length replies then replies ! k else Raises),
      add_speaker_identifier = (\<lambda>text identifier. text),
      path_name = (\<lambda>file. file)\<rparr>"

section \<open>Title prompt truncation (src/services/meeting\_title\_service.py)\<close>

definition speaker_marker :: ustr where
  "speaker_marker = asc ''\"speaker\":''"

text \<open>
  The loop \<open>for i in range(60)\<close> of \<open>process_transcript_and_generate_title\<close>: each
  round looks for the next marker after the current index; a failed search ends the loop
  with \<open>found_count = -1\<close>. The result is \<open>(current_index, found_count)\<close>.
\<close>

fun marker_loop :: "ustr \<Rightarrow> nat list \<Rightarrow> int \<Rightarrow> int \<Rightarrow> int \<times> int" where
  "marker_loop transcript_text [] current_index found_count = (current_index, found_count)"
| "marker_loop transcript_text (i # rest) current_index found_count =
     (let found_index = py_find transcript_text speaker_marker (current_index + 1)
      in if found_index = -1 then (found_index, -1)
         else marker_loop transcript_text rest found_index (int i + 1))"

text \<open>The text handed to the title generator.\<close>

definition text_for_title :: "ustr \<Rightarrow> ustr" where
  "text_for_title transcript_text =
     (let marker_count = py_count transcript_text speaker_marker
      in if marker_count = 0 then transcript_text
         else if 60 < marker_count then
           (case marker_loop transcript_text [0..<60] (-1) 0 of
              (current_index, found_count) \<Rightarrow>
                if found_count = 60 then take (nat current_index) transcript_text
                else transcript_text)
         else transcript_text)"

section \<open>Speaker remapper (src/services/speaker\_remapper.py)\<close>

text \<open>
  The value that \<open>json.loads\<close> returns. A JSON object becomes a \<open>dict\<close>, here the list
  of its items in iteration order.
\<close>

datatype pyval =
    PDict "(ustr \<times> pyval) list"
  | PList "pyval list"
  | PStr ustr
  | PNum
  | PBool bool
  | PNone

text \<open>
  What the remapper calls outside the repository's own code:
  \<^item> \<open>gemini_api\<close>: constructing \<open>GeminiAPI()\<close> raises, or gives the client whose
    \<open>summarize_minutes(prompt, "")\<close> raises or returns a text;
  \<^item> \<open>remap_prompt\<close>: \<open>get_remap_prompt()\<close> raises or returns the prompt;
  \<^item> \<open>json_loads\<close>: \<open>json.loads\<close> raises (\<open>JSONDecodeError\<close> or another exception) or
    returns a value;
  \<^item> \<open>compile_repl\<close>: what \<open>re.sub\<close> makes of a replacement template: an error, or
    the function from the matched text to its replacement.
\<close>

record remap_env =
  gemini_api :: "error + (ustr \<Rightarrow> error + ustr)"
  remap_prompt :: "error + ustr"
  json_loads :: "ustr \<Rightarrow> error + pyval"
  compile_repl :: "ustr \<Rightarrow> error + (ustr \<Rightarrow> ustr)"

text \<open>
  The first search of \<open>_parse_mapping_response\<close>, \<open>```json\s*(.*?)\s*```\<close> with
  \<open>re.DOTALL\<close>. After the opening fence and all the whitespace that follows it, the lazy
  group is the shortest text after which optional whitespace and a closing fence follow.
  When no closing fence follows, the search goes on to the next opening fence.
\<close>

definition fence :: ustr where
  "fence = asc ''```''"

fun lazy_until_fence :: "ustr \<Rightarrow> ustr option" where
  "lazy_until_fence [] = None"
| "lazy_until_fence (c # cs) =
     (if prefix fence (dropWhile is_space (c # cs)) then Some []
      else map_option ((#) c) (lazy_until_fence cs))"

fun search_json_block :: "ustr \<Rightarrow> ustr option" where
  "search_json_block [] = None"
| "search_json_block (c # cs) =
     (case strip_prefix (asc ''```json'') (c # cs) of
        None \<Rightarrow> search_json_block cs
      | Some rest \<Rightarrow>
          (case lazy_until_fence (dropWhile is_space rest) of
             None \<Rightarrow> search_json_block cs
           | Some found \<Rightarrow> Some found))"

text \<open>
  The second search, \<open>{.*}\<close> with \<open>re.DOTALL\<close>: from the first opening brace to the
  last closing brace after it.
\<close>

definition search_braces :: "ustr \<Rightarrow> ustr option" where
  "search_braces ai_response =
     (case dropWhile (\<lambda>c. c \<noteq> 123) ai_response of
        [] \<Rightarrow> None
      | c # body \<Rightarrow>
          if 125 \<in> set body then Some (c # rev (dropWhile (\<lambda>c. c \<noteq> 125) (rev body)))
          else None)"

definition extract_json_str :: "ustr \<Rightarrow> ustr" where
  "extract_json_str ai_response =
     (case search_json_block ai_response of
        Some found \<Rightarrow> found
      | None \<Rightarrow>
          (case search_braces ai_response of
             Some found \<Rightarrow> found
           | None \<Rightarrow> ai_response))"

text \<open>
  \<open>_parse_mapping_response\<close>. A \<open>JSONDecodeError\<close> gives the empty dict. On a value
  that is not a dict, \<open>len(mapping)\<close> raises TypeError (numbers, booleans, \<open>None\<close>) or
  \<open>mapping.items()\<close> raises AttributeError (lists, strings). On a dict,
  \<open>value_counts[v]\<close> raises TypeError for a value that is not hashable (a list or a
  dict); otherwise the dict is returned as it is.
\<close>

fun hashable :: "pyval \<Rightarrow> bool" where
  "hashable (PDict items) = False"
| "hashable (PList items) = False"
| "hashable v = True"

definition parse_mapping_response :: "remap_env \<Rightarrow> ustr \<Rightarrow> error + (ustr \<times> pyval) list" where
  "parse_mapping_response env ai_response =
     (case json_loads env (extract_json_str ai_response) of
        Inl err \<Rightarrow> (if err = JSONDecodeError then Inr [] else Inl err)
      | Inr (PDict mapping) \<Rightarrow>
          if list_all hashable (map snd mapping) then Inr mapping else Inl TypeError
      | Inr (PList items) \<Rightarrow> Inl AttributeError
      | Inr (PStr s) \<Rightarrow> Inl AttributeError
      | Inr v \<Rightarrow> Inl TypeError)"

text \<open>
  The request of \<open>GeminiSpeakerRemapper._get_speaker_mapping\<close>:
  \<open>f"{remap_prompt}\n\n{transcript_text}"\<close>.
\<close>

definition combined_prompt :: "ustr \<Rightarrow> ustr \<Rightarrow> ustr" where
  "combined_prompt prompt transcript_text = prompt @ [10, 10] @ transcript_text"

text \<open>
  \<open>_get_speaker_mapping\<close>: every exception raised inside the \<open>try\<close> block is caught and
  answered with the empty dict. The result is a sum to keep "does not raise" visible:
  the function has no \<open>Inl\<close> result.
\<close>

definition get_speaker_mapping :: "remap_env \<Rightarrow> ustr \<Rightarrow> error + (ustr \<times> pyval) list" where
  "get_speaker_mapping env transcript_text =
     (case gemini_api env of
        Inl err \<Rightarrow> Inr []
      | Inr summarize_minutes \<Rightarrow>
          (case remap_prompt env of
             Inl err \<Rightarrow> Inr []
           | Inr prompt \<Rightarrow>
               (case summarize_minutes (combined_prompt prompt transcript_text) of
                  Inl err \<Rightarrow> Inr []
                | Inr ai_response \<Rightarrow>
                    (case parse_mapping_response env ai_response of
                       Inl err \<Rightarrow> Inr []
                     | Inr mapping \<Rightarrow> Inr mapping))))"

text \<open>
  \<open>_replace_speakers\<close>. The skip patterns are the word for "unknown"
  (U+4E0D U+660E) in square brackets, \<open>[\<close>, \<open>unknown\<close>, \<open>Unknown\<close> and that word
  alone. \<open>pattern in new_name\<close> raises TypeError when
  the new name is a number, a boolean or \<open>None\<close>. Lists and dicts never arrive here:
  \<open>_parse_mapping_response\<close> raises on them.
\<close>

definition skip_patterns :: "ustr list" where
  "skip_patterns = [[91, 19981, 26126, 93], [91], asc ''unknown'', asc ''Unknown'', [19981, 26126]]"

fun filter_mapping :: "(ustr \<times> pyval) list \<Rightarrow> error + (ustr \<times> ustr) list" where
  "filter_mapping [] = Inr []"
| "filter_mapping ((old_name, PStr new_name) # rest) =
     (case filter_mapping rest of
        Inl err \<Rightarrow> Inl err
      | Inr filtered \<Rightarrow>
          if list_ex (contains new_name) skip_patterns then Inr filtered
          else Inr ((old_name, new_name) # filtered))"
| "filter_mapping ((old_name, v) # rest) = Inl TypeError"

text \<open>
  The pattern \<open>"speaker"\s*:\s*"<re.escape(old_name)>"\<close> at the start of a text: the
  number of characters matched.
\<close>

definition match_speaker :: "ustr \<Rightarrow> ustr \<Rightarrow> nat option" where
  "match_speaker old_name s =
     (case match_field_header (asc ''\"speaker\"'') s of
        None \<Rightarrow> None
      | Some r \<Rightarrow>
          (case strip_prefix (old_name @ [34]) r of
             None \<Rightarrow> None
           | Some rest \<Rightarrow> Some (length s - length rest)))"

text \<open>
  \<open>re.sub(pattern, replacement, text)\<close>: the non-overlapping matches from the left are
  replaced, every other character is kept. \<open>repl\<close> maps the matched text to what replaces
  it.
\<close>

fun sub_from :: "ustr \<Rightarrow> (ustr \<Rightarrow> ustr) \<Rightarrow> ustr \<Rightarrow> nat \<Rightarrow> ustr" where
  "sub_from old_name repl [] skip = []"
| "sub_from old_name repl (c # cs) skip =
     (if 0 < skip then sub_from old_name repl cs (skip - 1)
      else case match_speaker old_name (c # cs) of
             Some n \<Rightarrow> repl (take n (c # cs)) @ sub_from old_name repl cs (n - 1)
           | None \<Rightarrow> c # sub_from old_name repl cs 0)"

definition replacement :: "ustr \<Rightarrow> ustr" where
  "replacement new_name = asc ''\"speaker\": \"'' @ new_name @ [34]"

fun replace_loop :: "remap_env \<Rightarrow> (ustr \<times> ustr) list \<Rightarrow> ustr \<Rightarrow> error + ustr" where
  "replace_loop env [] result_text = Inr result_text"
| "replace_loop env ((old_name, new_name) # rest) result_text =
     (case compile_repl env (replacement new_name) of
        Inl err \<Rightarrow> Inl err
      | Inr repl \<Rightarrow> replace_loop env rest (sub_from old_name repl result_text 0))"

definition replace_speakers :: "remap_env \<Rightarrow> ustr \<Rightarrow> (ustr \<times> pyval) list \<Rightarrow> error + ustr" where
  "replace_speakers env transcript_text speaker_mapping =
     (case filter_mapping speaker_mapping of
        Inl err \<Rightarrow> Inl err
      | Inr filtered_mapping \<Rightarrow> replace_loop env filtered_mapping transcript_text)"


text \<open>
  An environment for concrete runs: the API answers with a fixed result, the prompt is a
  fixed text, \<open>json.loads\<close> is a fixed function, and templates without a backslash are
  literal (the others are not needed in the runs and are answered with an error).
\<close>

definition fixed_remap_env :: "(error + ustr) \<Rightarrow> (ustr \<Rightarrow> error + pyval) \<Rightarrow> remap_env" where
  "fixed_remap_env reply loads =
     \<lparr>gemini_api = Inr (\<lambda>prompt. reply),
      remap_prompt = Inr (asc ''remap''),
      json_loads = loads,
      compile_repl = (\<lambda>template. if 92 \<in> set template then Inl OtherException
                                   else Inr (\<lambda>matched. template))\<rparr>"

text \<open>A transcript that consists of 61 speaker markers.\<close>

definition sixty_one_markers :: ustr where
  "sixty_one_markers = concat (replicate 61 speaker_marker)"

section \<open>Texts as quoted strings and the chunks between them\<close>

text \<open>
  The idempotence of the rewrite is stated for texts read as an initial chunk followed by
  quoted strings, each with the chunk that follows it: \<open>s0 "x1" s1 "x2" s2 ...\<close>, where
  no \<open>x\<close> and no \<open>s\<close> holds a double quote. Every text with an even number of double
  quotes reads this way. A speaker field is a quoted \<open>speaker\<close>, a chunk of optional
  whitespace, a colon and optional whitespace, and the quoted label.
\<close>

fun render_pairs :: "(ustr \<times> ustr) list \<Rightarrow> ustr" where
  "render_pairs [] = []"
| "render_pairs ((x, s) # qs) = 34 # x @ 34 # s @ render_pairs qs"












section \<open>Cleanup after aggregation (src/modules/result\_integrator.py, audio\_processor.py)\<close>

text \<open>
  The segments directory as \<open>cleanup_temp_files\<close> sees it: whether it exists, its
  entries in the order \<open>glob("*")\<close> yields them, and which operations the file system
  refuses (\<open>unlink\<close> of an entry, \<open>rmdir\<close> of the directory) by raising OSError.
\<close>

record dir_entry =
  entry_name :: ustr
  unlink_raises :: bool

record segments_dir =
  dir_exists :: bool
  entries :: "dir_entry list"
  rmdir_raises :: bool

text \<open>
  \<open>Path.suffix\<close> of a file name: the part from the last dot, unless that dot is the
  first or the last character.
\<close>

definition py_suffix :: "ustr \<Rightarrow> ustr" where
  "py_suffix name =
     (let ext = rev (takeWhile (\<lambda>c. c \<noteq> 46) (rev name))
      in if 46 \<in> set name \<and> ext \<noteq> [] \<and> length ext + 1 < length name then 46 # ext else [])"

text \<open>
  The loop over \<open>glob("*")\<close>: entries with suffix \<open>.mp3\<close> or \<open>.json\<close> are unlinked
  and leave the directory; the first \<open>unlink\<close> that raises ends the loop with the
  exception.
\<close>

fun unlink_loop :: "dir_entry list \<Rightarrow> error + dir_entry list" where
  "unlink_loop [] = Inr []"
| "unlink_loop (f # rest) =
     (if py_suffix (entry_name f) \<in> set [asc ''.mp3'', asc ''.json''] then
        (if unlink_raises f then Inl OSError else unlink_loop rest)
      else (case unlink_loop rest of Inl err \<Rightarrow> Inl err | Inr remaining \<Rightarrow> Inr (f # remaining)))"

text \<open>
  \<open>cleanup_temp_files\<close>: the \<open>except Exception\<close> handler logs and re-raises, so an
  exception of the body is an exception of the function.
\<close>

definition cleanup_temp_files :: "segments_dir \<Rightarrow> error + segments_dir" where
  "cleanup_temp_files d =
     (if dir_exists d then
        (case unlink_loop (entries d) of
           Inl err \<Rightarrow> Inl err
         | Inr remaining \<Rightarrow>
             if remaining = [] then
               (if rmdir_raises d then Inl OSError
                else Inr (d\<lparr>dir_exists := False, entries := []\<rparr>))
             else Inr (d\<lparr>entries := remaining\<rparr>))
      else Inr d)"

text \<open>
  The end of \<open>AudioProcessor.process_audio_file\<close> (lines 83 to 100): the result of
  \<open>integrate_results\<close> is the final output; then the cleanup runs; then the final output
  is returned. The \<open>except Exception\<close> handler logs and re-raises.
\<close>

definition process_audio_file_end :: "(error + ustr) \<Rightarrow> segments_dir \<Rightarrow> error + ustr" where
  "process_audio_file_end integrated d =
     (case integrated of
        Inl err \<Rightarrow> Inl err
      | Inr final_output \<Rightarrow>
          (case cleanup_temp_files d of
             Inl err \<Rightarrow> Inl err
           | Inr d' \<Rightarrow> Inr final_output))"

text \<open>
  The cleanup at the end of \<open>TranscriptionService._process_with_gemini\<close> (lines 360 to
  375): \<open>shutil.rmtree\<close> runs inside its own \<open>try\<close>, whose handler only logs a warning,
  and the result is returned either way.
\<close>

definition process_with_gemini_end :: "'a \<Rightarrow> (error + unit) \<Rightarrow> error + 'a" where
  "process_with_gemini_end result rmtree_outcome =
     (case rmtree_outcome of Inl err \<Rightarrow> Inr result | Inr u \<Rightarrow> Inr result)"

text \<open>
  A segments directory with one segment file that the file system refuses to delete.
\<close>

definition locked_segment_dir :: segments_dir where
  "locked_segment_dir =
     \<lparr>dir_exists = True,
      entries = [\<lparr>entry_name = asc ''segment_000.mp3'', unlink_raises = True\<rparr>],
      rmdir_raises = False\<rparr>"

section \<open>GeminiTranscriber (src/modules/transcriber.py, src/services/gemini\_transcription.py)\<close>

text \<open>
  A media file as the two functions see it through \<open>pathlib\<close>: its path, whether it
  exists, and \<open>suffix.lower()\<close>. The service calls the Gemini API
  (\<open>api_transcribe path is_video\<close> raises, returns \<open>None\<close> or returns a text) and
  writes the text to a file, which can raise.
\<close>

record media_file =
  media_path :: ustr
  media_exists :: bool
  suffix_lower :: ustr

record transcription_service =
  api_transcribe :: "ustr \<Rightarrow> bool \<Rightarrow> error + ustr option"
  write_raises :: bool
  output_path :: ustr
  timestamp :: ustr

definition valid_extensions :: "ustr list" where
  "valid_extensions =
     [asc ''.mp3'', asc ''.wav'', asc ''.m4a'', asc ''.mp4'', asc ''.avi'', asc ''.mov'',
      asc ''.mkv'', asc ''.webm'']"

definition video_extensions :: "ustr list" where
  "video_extensions = [asc ''.mp4'', asc ''.avi'', asc ''.mov'', asc ''.mkv'', asc ''.webm'']"

text \<open>
  \<open>GeminiTranscriptionService.process_media\<close>: every exception becomes a
  TranscriptionError; the result is a dict, here the list of its items.
\<close>

definition process_media :: "transcription_service \<Rightarrow> media_file \<Rightarrow> bool \<Rightarrow> error + (ustr \<times> pyval) list" where
  "process_media service file is_video =
     (if \<not> media_exists file then Inl TranscriptionError
      else if suffix_lower file \<notin> set valid_extensions then Inl TranscriptionError
      else case api_transcribe service (media_path file) is_video of
             Inl err \<Rightarrow> Inl TranscriptionError
           | Inr None \<Rightarrow> Inl TranscriptionError
           | Inr (Some result) \<Rightarrow>
               if result = [] then Inl TranscriptionError
               else if write_raises service then Inl TranscriptionError
               else Inr [(asc ''raw_text'', PStr []),
                         (asc ''formatted_text'', PStr result),
                         (asc ''raw_file'', PNone),
                         (asc ''formatted_file'', PStr (output_path service)),
                         (asc ''timestamp'', PStr (timestamp service))])"

text \<open>\<open>d.get(key, default)\<close>.\<close>

definition dict_get :: "(ustr \<times> pyval) list \<Rightarrow> ustr \<Rightarrow> pyval \<Rightarrow> pyval" where
  "dict_get d key fallback = (case map_of d key of Some v \<Rightarrow> v | None \<Rightarrow> fallback)"

record conversation =
  speaker :: ustr
  utterance :: pyval

text \<open>
  \<open>GeminiTranscriber.transcribe_audio\<close>. The speaker is the constant U+8A71 U+8005.
  \<open>len(response_text)\<close> in the debug message raises on a value without a length; every
  exception becomes a TranscriptionError. The value is the \<open>"conversations"\<close> list of the
  returned dict, its only item.
\<close>

fun has_len :: "pyval \<Rightarrow> bool" where
  "has_len (PDict items) = True"
| "has_len (PList items) = True"
| "has_len (PStr s) = True"
| "has_len v = False"

definition transcriber_transcribe_audio :: "transcription_service \<Rightarrow> media_file \<Rightarrow> error + conversation list" where
  "transcriber_transcribe_audio service file =
     (let is_video = suffix_lower file \<in> set video_extensions
      in case process_media service file is_video of
           Inl err \<Rightarrow> Inl TranscriptionError
         | Inr result \<Rightarrow>
             (let response_text = dict_get result (asc ''formatted_text'') (PStr [])
              in if has_len response_text
                 then Inr [\<lparr>speaker = [35441, 32773], utterance = response_text\<rparr>]
                 else Inl TranscriptionError))"

text \<open>
  A service whose API answers with a text that distinguishes two speakers, and a video
  segment file.
\<close>

definition sample_service :: transcription_service where
  "sample_service =
     \<lparr>api_transcribe = (\<lambda>path is_video. Inr (Some (asc ''{\"conversations\": [{\"speaker\": \"A\", \"utterance\": \"hi\"}, {\"speaker\": \"B\", \"utterance\": \"ok\"}]}''))),
      write_raises = False,
      output_path = asc ''output/transcription_summary_20240308000000.txt'',
      timestamp = asc ''20240308000000''\<rparr>"

definition sample_file :: media_file where
  "sample_file = \<lparr>media_path = asc ''segment_000.mp4'', media_exists = True, suffix_lower = asc ''.mp4''\<rparr>"

section \<open>Properties of the silence-aware splitter\<close>

lemma py_range_set:
  "0 < step \<Longrightarrow> x \<in> set (py_range start stop step) \<Longrightarrow> start \<le> x \<and> x < stop"
proof (induction start stop step rule: py_range.induct)
  case (1 start stop step)
  show ?case
  proof (cases "start < stop")
    case False
    with 1(3) show ?thesis by (subst (asm) py_range.simps) simp
  next
    case True
    from 1(3) True 1(2) have "x = start \<or> x \<in> set (py_range (start + step) stop step)"
      by (subst (asm) py_range.simps) simp
    then show ?thesis
    proof
      assume "x = start" with True show ?thesis by simp
    next
      assume "x \<in> set (py_range (start + step) stop step)"
      with 1(1) True 1(2) have "start + step \<le> x \<and> x < stop" by simp
      with 1(2) show ?thesis by simp
    qed
  qed
qed

lemma select_best_loop_range:
  "\<forall>(x, y) \<in> set rs. lo \<le> (x + y) div 2 \<and> (x + y) div 2 \<le> hi \<Longrightarrow> lo \<le> bp \<Longrightarrow> bp \<le> hi \<Longrightarrow>
   lo \<le> select_best_loop rs t bd bp \<and> select_best_loop rs t bd bp \<le> hi"
  by (induction rs t bd bp rule: select_best_loop.induct) (simp_all add: Let_def)

lemma select_best_silence_range:
  assumes "rs \<noteq> []" and "\<forall>(x, y) \<in> set rs. lo \<le> (x + y) div 2 \<and> (x + y) div 2 \<le> hi"
  shows "lo \<le> select_best_silence rs t \<and> select_best_silence rs t \<le> hi"
proof (cases rs)
  case Nil
  with assms(1) show ?thesis by simp
next
  case (Cons r rest)
  obtain x y where r: "r = (x, y)" by (cases r)
  have eq: "select_best_silence rs t =
      select_best_loop rest t (Some \<bar>(x + y) div 2 - t\<bar>) ((x + y) div 2)"
    by (simp add: select_best_silence_def Cons r Let_def)
  have mid: "lo \<le> (x + y) div 2 \<and> (x + y) div 2 \<le> hi"
    using assms(2) Cons r by simp
  have rest: "\<forall>(x, y) \<in> set rest. lo \<le> (x + y) div 2 \<and> (x + y) div 2 \<le> hi"
    using assms(2) Cons by simp
  show ?thesis
    unfolding eq using select_best_loop_range [OF rest] mid by blast
qed

lemma min_volume_loop_range:
  "\<forall>i \<in> set ws. lo \<le> i + window_size div 2 \<and> i + window_size div 2 \<le> hi \<Longrightarrow> lo \<le> mp \<Longrightarrow> mp \<le> hi \<Longrightarrow>
   lo \<le> min_volume_loop a s ws mv mp \<and> min_volume_loop a s ws mv mp \<le> hi"
  by (induction a s ws mv mp rule: min_volume_loop.induct) (simp_all add: Let_def)

lemma find_min_volume_position_range:
  assumes "1000 \<le> e - s"
  shows "50 \<le> find_min_volume_position a s e \<and> find_min_volume_position a s e \<le> e - s - 50"
proof -
  have r: "py_range 0 (e - s - 100) 100 = 0 # py_range 100 (e - s - 100) 100"
    using assms by (subst py_range.simps) simp
  have all: "\<forall>i \<in> set (py_range 100 (e - s - 100) 100).
      50 \<le> i + window_size div 2 \<and> i + window_size div 2 \<le> e - s - 50"
  proof
    fix i assume "i \<in> set (py_range 100 (e - s - 100) 100)"
    then have "100 \<le> i \<and> i < e - s - 100" using py_range_set [of 100 i 100 "e - s - 100"] by simp
    then show "50 \<le> i + window_size div 2 \<and> i + window_size div 2 \<le> e - s - 50"
      by (simp add: window_size_def)
  qed
  have eq: "find_min_volume_position a s e =
      min_volume_loop a s (py_range 100 (e - s - 100) 100) (Some (rms a s (s + 100))) 50"
    by (simp add: find_min_volume_position_def r Let_def window_size_def)
  have "(50::int) \<le> 50" and "(50::int) \<le> e - s - 50" using assms by simp_all
  from min_volume_loop_range [OF all this] show ?thesis unfolding eq .
qed

lemma scan_thresholds_subset:
  "r \<in> set (scan_thresholds det ths r0) \<Longrightarrow> r \<in> set r0 \<or> (\<exists>th. r \<in> set (det th))"
proof (induction det ths r0 rule: scan_thresholds.induct)
  case (1 det r0)
  then show ?case by simp
next
  case (2 det thresh rest r0)
  show ?case
  proof (cases "det thresh = []")
    case True
    with 2 show ?thesis by (simp add: Let_def)
  next
    case False
    with 2(2) show ?thesis by (auto simp add: Let_def)
  qed
qed

lemma silence_mid:
  assumes ok: "silence_ok a" and r: "(x, y) \<in> set (silence a s e th)"
  shows "250 \<le> (x + y) div 2 \<and> (x + y) div 2 \<le> e - s - 250"
proof -
  from ok r have "0 \<le> x \<and> x + 500 \<le> y \<and> y \<le> e - s"
    unfolding silence_ok_def min_silence_len_def by blast
  then show ?thesis by linarith
qed

text \<open>Position of the chosen point relative to the search window.\<close>

lemma find_optimal_split_point_cases:
  assumes ok: "silence_ok a"
  shows "find_optimal_split_point a t = min t (alen a) \<and> search_end_of a t - search_start_of a t < 1000
       \<or> 1000 \<le> search_end_of a t - search_start_of a t \<and> search_start_of a t + 50 \<le> find_optimal_split_point a t \<and>
         find_optimal_split_point a t + 50 \<le> search_end_of a t"
proof (cases "search_end_of a t - search_start_of a t < 1000")
  case True
  then show ?thesis
    by (simp add: find_optimal_split_point_def search_end_of_def search_start_of_def Let_def min_silence_len_def)
next
  case False
  let ?s = "search_start_of a t" and ?e = "search_end_of a t"
  let ?rs = "scan_thresholds (silence a ?s ?e) thresholds []"
  have wide: "1000 \<le> ?e - ?s" using False by simp
  show ?thesis
  proof (cases "?rs = []")
    case True
    then have "find_optimal_split_point a t = ?s + find_min_volume_position a ?s ?e"
      using False
      by (simp add: find_optimal_split_point_def search_end_of_def search_start_of_def Let_def min_silence_len_def)
    with find_min_volume_position_range [OF wide, of a] wide show ?thesis by simp
  next
    case ne: False
    then have eq: "find_optimal_split_point a t = ?s + select_best_silence ?rs (min t (alen a) - ?s)"
      using False
      by (simp add: find_optimal_split_point_def search_end_of_def search_start_of_def Let_def min_silence_len_def)
    have "\<forall>(x, y) \<in> set ?rs. 250 \<le> (x + y) div 2 \<and> (x + y) div 2 \<le> ?e - ?s - 250"
    proof (clarify)
      fix x y assume "(x, y) \<in> set ?rs"
      then obtain th where "(x, y) \<in> set (silence a ?s ?e th)"
        using scan_thresholds_subset [of "(x, y)" "silence a ?s ?e" thresholds "[]"] by auto
      with silence_mid [OF ok] show "250 \<le> (x + y) div 2 \<and> (x + y) div 2 \<le> ?e - ?s - 250" by blast
    qed
    from select_best_silence_range [OF ne this]
    have "250 \<le> select_best_silence ?rs (min t (alen a) - ?s)"
      and "select_best_silence ?rs (min t (alen a) - ?s) \<le> ?e - ?s - 250" by blast+
    with wide show ?thesis unfolding eq by linarith
  qed
qed

lemma find_optimal_split_point_interior:
  assumes ok: "silence_ok a" and t: "0 < t" "t < alen a"
  shows "max 0 (t - margin_ms) < find_optimal_split_point a t \<and> find_optimal_split_point a t < min (alen a) (t + margin_ms)"
  using find_optimal_split_point_cases [OF ok, of t] t
  by (auto simp: search_end_of_def search_start_of_def margin_ms_def margin_seconds_def)

lemma sorted_adjusted:
  assumes ok: "silence_ok a"
  shows "2 * margin_ms \<le> seg \<Longrightarrow> 0 < s \<Longrightarrow> stop \<le> alen a \<Longrightarrow>
     sorted_wrt (<) (map (find_optimal_split_point a) (py_range s stop seg))"
proof (induction s stop seg rule: py_range.induct)
  case (1 start stop step)
  show ?case
  proof (cases "0 < step \<and> start < stop")
    case False
    then have "py_range start stop step = []" by (subst py_range.simps) simp
    then show ?thesis by simp
  next
    case True
    have unfold: "py_range start stop step = start # py_range (start + step) stop step"
      using True by (subst py_range.simps) simp
    have tail: "sorted_wrt (<) (map (find_optimal_split_point a) (py_range (start + step) stop step))"
      using 1 True by simp
    have head: "\<forall>x \<in> set (py_range (start + step) stop step).
        find_optimal_split_point a start < find_optimal_split_point a x"
    proof
      fix x assume "x \<in> set (py_range (start + step) stop step)"
      with True have x: "start + step \<le> x \<and> x < stop" using py_range_set by blast
      have "find_optimal_split_point a start < min (alen a) (start + margin_ms)"
        using find_optimal_split_point_interior [OF ok, of start] 1(3,4) True by simp
      moreover have "max 0 (x - margin_ms) < find_optimal_split_point a x"
        using find_optimal_split_point_interior [OF ok, of x] x 1(3,4) True by simp
      ultimately show "find_optimal_split_point a start < find_optimal_split_point a x"
        using x 1(2) by linarith
    qed
    show ?thesis unfolding unfold using head tail by simp
  qed
qed

lemma silent_audio_ok: "silence_ok (silent_audio n)"
  by (simp add: silence_ok_def silent_audio_def)

lemma find_optimal_split_point_margin:
  assumes ok: "silence_ok a" and t: "0 \<le> t" "t \<le> alen a"
  shows "\<bar>find_optimal_split_point a t - t\<bar> \<le> margin_ms \<and>
         (search_end_of a t - search_start_of a t < 2 * min_silence_len \<longrightarrow>
            find_optimal_split_point a t = t)"
  using find_optimal_split_point_cases [OF ok, of t] t
  by (auto simp: search_end_of_def search_start_of_def margin_ms_def margin_seconds_def min_silence_len_def)

lemma theoretical_split_points_bounds:
  assumes "theoretical_split_points n seg = Inr ts" and "x \<in> set ts"
  shows "0 \<le> x \<and> x \<le> n"
proof -
  have pos: "0 < seg \<and> 0 < n"
  proof (rule ccontr)
    assume "\<not> (0 < seg \<and> 0 < n)"
    then have "py_range 0 n seg = []" by (subst py_range.simps) auto
    with assms(1) show False by (simp add: theoretical_split_points_def split: if_splits)
  qed
  have "set ts \<subseteq> set (py_range 0 n seg) \<union> {n}"
    using assms(1) by (auto simp: theoretical_split_points_def Let_def split: if_splits)
  with assms(2) have "x \<in> set (py_range 0 n seg) \<or> x = n" by blast
  then show ?thesis
  proof
    assume "x \<in> set (py_range 0 n seg)"
    with pos py_range_set [of seg x 0 n] show ?thesis by simp
  next
    assume "x = n" with pos show ?thesis by simp
  qed
qed

text \<open>
  Claim C8. Every interior theoretical boundary is adjusted to a point at most
  \<open>margin_ms\<close> (10 seconds) away from it, and when the search window around it is
  narrower than twice the minimum silence length (2 x 500 ms) the actual boundary is the
  theoretical boundary itself. The silence ranges are taken to be as pydub reports them
  (\<open>silence_ok\<close>).
\<close>

theorem adjusted_boundary_within_margin:
  assumes ok: "silence_ok a"
    and th: "theoretical_split_points (alen a) segment_length_ms = Inr theoretical"
    and i: "0 < i" "i < length theoretical - 1"
  shows "\<exists>actual. determine_all_split_points a theoretical = Inr actual \<and>
           length actual = length theoretical \<and>
           \<bar>actual ! i - theoretical ! i\<bar> \<le> margin_ms \<and>
           (search_end_of a (theoretical ! i) - search_start_of a (theoretical ! i) < 2 * min_silence_len
              \<longrightarrow> actual ! i = theoretical ! i)"
proof -
  from i obtain first rest where ts: "theoretical = first # rest"
    by (cases theoretical) auto
  have ne: "rest \<noteq> []" using i ts by auto
  let ?f = "find_optimal_split_point a"
  let ?actual = "first # map ?f (butlast rest) @ [last rest]"
  have det: "determine_all_split_points a theoretical = Inr ?actual"
    using ts ne by simp
  have len: "length ?actual = length theoretical"
    using ts ne by simp
  obtain j where j: "i = Suc j" using i(1) by (cases i) auto
  have jlt: "j < length (butlast rest)" using i(2) j ts by simp
  have nth: "?actual ! i = ?f (theoretical ! i)"
    using jlt by (simp add: j ts nth_append nth_butlast)
  have "theoretical ! i \<in> set theoretical" using i(2) by simp
  from theoretical_split_points_bounds [OF th this]
  have "0 \<le> theoretical ! i" and "theoretical ! i \<le> alen a" by simp_all
  from find_optimal_split_point_margin [OF ok this] det len nth
  show ?thesis by simp
qed

theorem adjusted_boundary_within_margin_witness:
  "silence_ok (silent_audio 3000) \<and>
   theoretical_split_points (alen (silent_audio 3000)) 1000 = Inr [0, 1000, 2000, 3000] \<and>
   (\<exists>actual. determine_all_split_points (silent_audio 3000) [0, 1000, 2000, 3000] = Inr actual \<and>
      length actual = 4 \<and> \<bar>actual ! 1 - 1000\<bar> \<le> margin_ms) \<and>
   silence_ok (silent_audio 900) \<and>
   theoretical_split_points (alen (silent_audio 900)) 400 = Inr [0, 400, 800, 900] \<and>
   search_end_of (silent_audio 900) 400 - search_start_of (silent_audio 900) 400 < 2 * min_silence_len \<and>
   (\<exists>actual. determine_all_split_points (silent_audio 900) [0, 400, 800, 900] = Inr actual \<and>
      actual ! 1 = 400)"
proof -
  have th: "theoretical_split_points (alen (silent_audio 3000)) 1000 = Inr [0, 1000, 2000, 3000]"
    by (simp add: theoretical_split_points_def silent_audio_def py_range.simps)
  have th': "theoretical_split_points (alen (silent_audio 900)) 400 = Inr [0, 400, 800, 900]"
    by (simp add: theoretical_split_points_def silent_audio_def py_range.simps)
  have i: "(0::nat) < 1" "(1::nat) < length [0, 1000, 2000, 3000 :: int] - 1" by simp_all
  have i': "(0::nat) < 1" "(1::nat) < length [0, 400, 800, 900 :: int] - 1" by simp_all
  have narrow: "search_end_of (silent_audio 900) 400 - search_start_of (silent_audio 900) 400
      < 2 * min_silence_len"
    by (simp add: search_end_of_def search_start_of_def silent_audio_def margin_ms_def
        margin_seconds_def min_silence_len_def)
  have wide: "\<exists>actual. determine_all_split_points (silent_audio 3000) [0, 1000, 2000, 3000] = Inr actual \<and>
      length actual = 4 \<and> \<bar>actual ! 1 - 1000\<bar> \<le> margin_ms"
    using adjusted_boundary_within_margin [OF silent_audio_ok th i] by simp
  have tight: "\<exists>actual. determine_all_split_points (silent_audio 900) [0, 400, 800, 900] = Inr actual \<and>
      actual ! 1 = 400"
    using adjusted_boundary_within_margin [OF silent_audio_ok th' i'] narrow by simp
  show ?thesis using silent_audio_ok th th' narrow wide tight by blast
qed

text \<open>
  Claim C2, as amended. When the audio has positive duration and the segment length is at
  least twice the search margin (20 seconds), the split plan is strictly increasing, starts
  at 0, ends at the total duration, and lies within \<open>[0, duration]\<close>. For shorter
  segment lengths the search windows of neighbouring boundaries overlap and the claim
  fails, as \<open>split_plan_counterexample\<close> shows.
\<close>

theorem split_plan_strictly_increasing:
  assumes ok: "silence_ok a" and len: "0 < alen a"
    and seg: "2 * margin_seconds \<le> segment_length_seconds"
  shows "\<exists>plan. split_plan a segment_length_seconds = Inr plan \<and>
           sorted_wrt (<) plan \<and> hd plan = 0 \<and> last plan = alen a \<and>
           (\<forall>x \<in> set plan. 0 \<le> x \<and> x \<le> alen a)"
proof -
  let ?seg = "segment_length_seconds * 1000"
  let ?f = "find_optimal_split_point a"
  let ?inner = "py_range ?seg (alen a) ?seg"
  let ?plan = "0 # map ?f ?inner @ [alen a]"
  have segpos: "0 < ?seg" and seg2: "2 * margin_ms \<le> ?seg"
    using seg by (simp_all add: margin_seconds_def margin_ms_def)
  have r0: "py_range 0 (alen a) ?seg = 0 # ?inner"
    using len segpos by (subst py_range.simps) simp
  have inner: "\<forall>x \<in> set ?inner. 0 < x \<and> x < alen a"
    using py_range_set [OF segpos] segpos by fastforce
  have lastne: "last (0 # ?inner) \<noteq> alen a"
  proof -
    have "last (0 # ?inner) \<in> set (0 # ?inner)" by (rule last_in_set) simp
    with inner len show ?thesis by auto
  qed
  have th: "theoretical_split_points (alen a) ?seg = Inr (0 # ?inner @ [alen a])"
    using segpos lastne by (simp add: theoretical_split_points_def r0 del: last.simps)
  have plan: "split_plan a segment_length_seconds = Inr ?plan"
    by (simp add: split_plan_def th butlast_append)
  have bounds: "\<forall>x \<in> set ?inner. 0 < ?f x \<and> ?f x < alen a"
  proof
    fix x assume "x \<in> set ?inner"
    with inner have "0 < x" "x < alen a" by simp_all
    from find_optimal_split_point_interior [OF ok this] show "0 < ?f x \<and> ?f x < alen a" by simp
  qed
  have mid: "sorted_wrt (<) (map ?f ?inner)"
    using sorted_adjusted [OF ok seg2 segpos] by simp
  have sorted: "sorted_wrt (<) ?plan"
    using mid bounds len by (simp add: sorted_wrt_append)
  have all: "\<forall>x \<in> set ?plan. 0 \<le> x \<and> x \<le> alen a"
    using bounds len by auto
  show ?thesis using plan sorted all by simp
qed

theorem split_plan_strictly_increasing_witness:
  "silence_ok (silent_audio 50000) \<and> 0 < alen (silent_audio 50000) \<and> 2 * margin_seconds \<le> 20 \<and>
   (\<exists>plan. split_plan (silent_audio 50000) 20 = Inr plan \<and>
           sorted_wrt (<) plan \<and> hd plan = 0 \<and> last plan = alen (silent_audio 50000) \<and>
           (\<forall>x \<in> set plan. 0 \<le> x \<and> x \<le> alen (silent_audio 50000)))"
proof -
  have len: "0 < alen (silent_audio 50000)" by (simp add: silent_audio_def)
  have seg: "2 * margin_seconds \<le> 20" by (simp add: margin_seconds_def)
  from split_plan_strictly_increasing [OF silent_audio_ok len seg] silent_audio_ok len seg
  show ?thesis by blast
qed

text \<open>
  An entirely silent recording of three seconds, split with a segment length of one second:
  both interior boundaries move to the middle of the same silent range, so two consecutive
  boundaries are equal.
\<close>

theorem split_plan_counterexample:
  "0 < alen (silent_audio 3000) \<and> (0::int) < 1 \<and>
   split_plan (silent_audio 3000) 1 = Inr [0, 1500, 1500, 3000] \<and>
   \<not> sorted_wrt (<) [0, 1500, 1500, 3000 :: int]"
  by (simp add: split_plan_def theoretical_split_points_def silent_audio_def py_range.simps
      find_optimal_split_point_def margin_ms_def margin_seconds_def min_silence_len_def
      thresholds_def select_best_silence_def Let_def)

section \<open>Properties of the defect detector and the transcription loop\<close>

lemma contains_set: "contains t sub \<Longrightarrow> set sub \<subseteq> set t"
proof (induction t)
  case Nil
  then show ?case by simp
next
  case (Cons c cs)
  then show ?case using set_mono_prefix [of sub "c # cs"] by auto
qed

lemma contains_append_left: "contains t (xs @ ys) \<Longrightarrow> contains t xs"
proof (induction t)
  case Nil
  then show ?case by simp
next
  case (Cons c cs)
  then show ?case using append_prefixD [of xs ys "c # cs"] by auto
qed

lemma count_from_zero: "sub \<noteq> [] \<Longrightarrow> \<not> contains t sub \<Longrightarrow> count_from sub t k = 0"
  by (induction t arbitrary: k) auto

lemma py_count_zero: "sub \<noteq> [] \<Longrightarrow> \<not> contains t sub \<Longrightarrow> py_count t sub = 0"
  by (simp add: py_count_def count_from_zero)

lemma whole_text_loop_no_phrase:
  "\<forall>phrase \<in> set phrases. phrase \<noteq> [] \<and> \<not> contains t phrase \<Longrightarrow> \<not> whole_text_loop t phrases"
proof (induction phrases)
  case Nil
  then show ?case by simp
next
  case (Cons p ps)
  have p: "p \<noteq> []" "\<not> contains t p" using Cons.prems by simp_all
  have "concat (replicate 70 p) = p @ concat (replicate 69 p)"
    by (simp add: numeral_eq_Suc)
  then have "\<not> contains t (concat (replicate 70 p))"
    using contains_append_left [of t p "concat (replicate 69 p)"] p(2) by auto
  then show ?case using Cons p by (simp add: py_count_zero)
qed

lemma utterance_phrase_loop_no_phrase:
  "\<forall>phrase \<in> set phrases. phrase \<noteq> [] \<and> \<not> contains t phrase \<Longrightarrow> \<not> utterance_phrase_loop t phrases"
  by (induction phrases) (simp_all add: py_count_zero)

lemma no_stop_no_phrase:
  assumes "12290 \<notin> set t"
  shows "\<forall>phrase \<in> set problem_phrases. phrase \<noteq> [] \<and> \<not> contains t phrase"
proof
  fix phrase assume "phrase \<in> set problem_phrases"
  then have "12290 \<in> set phrase" by (auto simp: problem_phrases_def)
  with assms contains_set [of t phrase] show "phrase \<noteq> [] \<and> \<not> contains t phrase" by auto
qed

lemma ok_not_defective: "\<not> is_problematic_transcription (asc ''ok'')"
proof -
  have ns: "12290 \<notin> set (asc ''ok'')" by (simp add: asc_def)
  have "\<not> check_whole_text_repetition (asc ''ok'')"
    unfolding check_whole_text_repetition_def
    by (rule whole_text_loop_no_phrase [OF no_stop_no_phrase [OF ns]])
  moreover have "find_utterances (asc ''ok'') = []"
    by (simp add: find_utterances_def match_utterance_def match_field_header_def asc_def)
  moreover have "\<not> contains (asc ''ok'') failure_marker"
    by (simp add: failure_marker_def asc_def)
  ultimately show ?thesis by (simp add: is_problematic_transcription_def)
qed

lemma upt3: "[0..<3] = [0, 1, 2::nat]"
  by (simp add: upt_rec)

lemma attempt_usable:
  assumes "\<not> failed_reply (transcribe_audio e f (calls st))"
  shows "attempt_loop e f (attempt # rest) segment_text st =
           (Some (normalize_reply (transcribe_audio e f (calls st))), st\<lparr>calls := calls st + 1\<rparr>)"
  using assms by (auto simp: failed_reply_def defective_reply_def Let_def)

lemma attempt_failed:
  assumes "failed_reply (transcribe_audio e f (calls st))" and "attempt < max_retries"
  shows "\<exists>segment_text'. attempt_loop e f (attempt # rest) segment_text st =
           attempt_loop e f rest segment_text' (st\<lparr>calls := calls st + 1\<rparr>)"
  using assms by (auto simp: failed_reply_def defective_reply_def Let_def)

lemma usable_attempt_ends_loop:
  assumes k: "k \<le> max_retries"
    and before: "\<forall>j < k. failed_reply (transcribe_audio e f (calls st + j))"
    and usable: "\<not> failed_reply (transcribe_audio e f (calls st + k))"
  shows "transcribe_segment e f st =
           (Some (normalize_reply (transcribe_audio e f (calls st + k))),
            st\<lparr>calls := calls st + (k + 1)\<rparr>)"
proof -
  have range: "[0..<max_retries + 1] = [0, 1, 2]"
    by (simp add: max_retries_def upt3)
  have ts: "transcribe_segment e f st = attempt_loop e f [0, 1, 2] None st"
    unfolding transcribe_segment_def range ..
  from k have "k = 0 \<or> k = 1 \<or> k = 2" by (simp add: max_retries_def) linarith
  then show ?thesis
  proof (elim disjE)
    assume k0: "k = 0"
    from usable k0 have "\<not> failed_reply (transcribe_audio e f (calls st))" by simp
    from attempt_usable [OF this, of 0 "[1, 2]" None] show ?thesis
      unfolding ts by (simp add: k0 del: attempt_loop.simps)
  next
    assume k1: "k = 1"
    let ?st1 = "st\<lparr>calls := calls st + 1\<rparr>"
    from before k1 have f0: "failed_reply (transcribe_audio e f (calls st))" by simp
    from usable k1 have u: "\<not> failed_reply (transcribe_audio e f (calls ?st1))" by simp
    from attempt_failed [OF f0, of 0 "[1, 2]" None]
    obtain t1 where "attempt_loop e f [0, 1, 2] None st = attempt_loop e f [1, 2] t1 ?st1"
      by (auto simp: max_retries_def simp del: attempt_loop.simps)
    with attempt_usable [OF u, of 1 "[2]" t1] show ?thesis
      unfolding ts by (simp add: k1 del: attempt_loop.simps)
  next
    assume k2: "k = 2"
    let ?st1 = "st\<lparr>calls := calls st + 1\<rparr>"
    let ?st2 = "?st1\<lparr>calls := calls ?st1 + 1\<rparr>"
    from before k2 have f0: "failed_reply (transcribe_audio e f (calls st))"
      using before [rule_format, of 0] by simp
    from before k2 have f1: "failed_reply (transcribe_audio e f (calls ?st1))"
      using before [rule_format, of 1] by simp
    from usable k2 have u: "\<not> failed_reply (transcribe_audio e f (calls ?st2))"
      by (simp add: numeral_2_eq_2)
    from attempt_failed [OF f0, of 0 "[1, 2]" None]
    obtain t1 where s1: "attempt_loop e f [0, 1, 2] None st = attempt_loop e f [1, 2] t1 ?st1"
      by (auto simp: max_retries_def simp del: attempt_loop.simps)
    from attempt_failed [OF f1, of 1 "[2]" t1]
    obtain t2 where s2: "attempt_loop e f [1, 2] t1 ?st1 = attempt_loop e f [2] t2 ?st2"
      by (auto simp: max_retries_def simp del: attempt_loop.simps)
    from attempt_usable [OF u, of 2 "[]" t2] s1 s2 show ?thesis
      unfolding ts by (simp add: k2 del: attempt_loop.simps)
  qed
qed

lemma attempts_bounded:
  "calls st < calls (snd (transcribe_segment e file st)) \<and>
   calls (snd (transcribe_segment e file st)) \<le> calls st + (max_retries + 1)"
  by (simp add: transcribe_segment_def upt3 Let_def max_retries_def)

lemma all_defective_exhausts_budget:
  assumes all: "\<forall>k \<le> max_retries. defective_reply (transcribe_audio e file (calls st + k))"
  shows "transcribe_segment e file st =
        (Some (normalize_reply (transcribe_audio e file (calls st + max_retries))),
         st\<lparr>calls := calls st + (max_retries + 1), has_reached_max_retries := True\<rparr>)"
proof -
  have d0: "defective_reply (transcribe_audio e file (calls st))"
    using all [rule_format, of 0] by simp
  have d1: "defective_reply (transcribe_audio e file (Suc (calls st)))"
    using all [rule_format, of 1] by (simp add: max_retries_def)
  have d2: "defective_reply (transcribe_audio e file (Suc (Suc (calls st))))"
    using all [rule_format, of 2] by (simp add: max_retries_def)
  show ?thesis
    using d0 d1 d2
    by (simp add: transcribe_segment_def upt3 Let_def max_retries_def defective_reply_def)
qed

text \<open>
  Claim C3, as amended. Every segment takes at least one and at most
  \<open>max_retries + 1\<close> (3) attempts. When every one of these attempts returns a text that
  the detector classifies as defective, exactly \<open>max_retries\<close> (2) further attempts
  follow the first one, the text of the last attempt is accepted, and the max-retries flag
  is set. When an attempt within the budget is usable (it neither raises nor returns a
  defective text) after failed attempts only, the loop ends with that attempt: its text
  is accepted, no further attempt is made, and the flag is left as it was. So a defective
  first attempt alone does not force all the retries.
\<close>

theorem retry_budget:
  "calls st < calls (snd (transcribe_segment e file st)) \<and>
   calls (snd (transcribe_segment e file st)) \<le> calls st + (max_retries + 1) \<and>
   ((\<forall>k \<le> max_retries. defective_reply (transcribe_audio e file (calls st + k))) \<longrightarrow>
      transcribe_segment e file st =
        (Some (normalize_reply (transcribe_audio e file (calls st + max_retries))),
         st\<lparr>calls := calls st + (max_retries + 1), has_reached_max_retries := True\<rparr>)) \<and>
   (\<forall>k \<le> max_retries.
      (\<forall>j < k. failed_reply (transcribe_audio e file (calls st + j))) \<and>
      \<not> failed_reply (transcribe_audio e file (calls st + k)) \<longrightarrow>
        transcribe_segment e file st =
          (Some (normalize_reply (transcribe_audio e file (calls st + k))),
           st\<lparr>calls := calls st + (k + 1)\<rparr>))"
proof -
  have usable: "\<forall>k \<le> max_retries.
      (\<forall>j < k. failed_reply (transcribe_audio e file (calls st + j))) \<and>
      \<not> failed_reply (transcribe_audio e file (calls st + k)) \<longrightarrow>
        transcribe_segment e file st =
          (Some (normalize_reply (transcribe_audio e file (calls st + k))),
           st\<lparr>calls := calls st + (k + 1)\<rparr>)"
    using usable_attempt_ends_loop by blast
  show ?thesis
    using attempts_bounded [of st e "file"] all_defective_exhausts_budget [of e "file" st] usable
    by blast
qed

lemma marker_defective: "is_problematic_transcription failure_marker"
  by (simp add: is_problematic_transcription_def failure_marker_def asc_def)

lemma normalize_marker: "normalize_reply (Returns failure_marker) = failure_marker"
  by (simp add: failure_marker_def asc_def py_strip_def is_space_def)

lemma normalize_ok: "normalize_reply (Returns (asc ''ok'')) = asc ''ok''"
  by (simp add: asc_def py_strip_def is_space_def)

text \<open>
  The first attempt returns the known-failure marker (defective), the second a usable
  text: two attempts are made in all, and the flag stays unset.
\<close>

theorem retry_counterexample:
  "defective_reply (transcribe_audio (scripted_env [Returns failure_marker, Returns (asc ''ok'')]) (asc ''seg_000.mp4'') (calls initial_state)) \<and>
   transcribe_segment (scripted_env [Returns failure_marker, Returns (asc ''ok'')]) (asc ''seg_000.mp4'') initial_state =
     (Some (asc ''ok''), \<lparr>calls = 2, has_reached_max_retries = False\<rparr>)"
proof -
  have nz: "failure_marker \<noteq> []" and nz2: "asc ''ok'' \<noteq> []"
    by (simp_all add: failure_marker_def asc_def)
  show ?thesis
    using nz nz2
    by (simp add: transcribe_segment_def upt3 Let_def max_retries_def defective_reply_def
        scripted_env_def initial_state_def normalize_marker normalize_ok
        marker_defective ok_not_defective del: normalize_reply.simps)
qed

lemma marker_reply_defective: "defective_reply (Returns failure_marker)"
  unfolding defective_reply_def normalize_marker
  using marker_defective by (simp add: failure_marker_def asc_def)

theorem retry_budget_witness:
  "defective_reply
      (transcribe_audio (scripted_env [Returns failure_marker, Returns failure_marker, Returns failure_marker])
         (asc ''seg_000.mp4'') (calls initial_state + 0)) \<and>
   defective_reply
      (transcribe_audio (scripted_env [Returns failure_marker, Returns failure_marker, Returns failure_marker])
         (asc ''seg_000.mp4'') (calls initial_state + 1)) \<and>
   defective_reply
      (transcribe_audio (scripted_env [Returns failure_marker, Returns failure_marker, Returns failure_marker])
         (asc ''seg_000.mp4'') (calls initial_state + 2)) \<and>
   max_retries = 2 \<and>
   transcribe_segment (scripted_env [Returns failure_marker, Returns failure_marker, Returns failure_marker])
       (asc ''seg_000.mp4'') initial_state =
     (Some failure_marker, \<lparr>calls = 3, has_reached_max_retries = True\<rparr>) \<and>
   failed_reply
      (transcribe_audio (scripted_env [Returns failure_marker, Raises, Returns (asc ''ok'')])
         (asc ''seg_000.mp4'') (calls initial_state + 0)) \<and>
   failed_reply
      (transcribe_audio (scripted_env [Returns failure_marker, Raises, Returns (asc ''ok'')])
         (asc ''seg_000.mp4'') (calls initial_state + 1)) \<and>
   \<not> failed_reply
      (transcribe_audio (scripted_env [Returns failure_marker, Raises, Returns (asc ''ok'')])
         (asc ''seg_000.mp4'') (calls initial_state + 2)) \<and>
   transcribe_segment (scripted_env [Returns failure_marker, Raises, Returns (asc ''ok'')])
       (asc ''seg_000.mp4'') initial_state =
     (Some (asc ''ok''), \<lparr>calls = 3, has_reached_max_retries = False\<rparr>)"
proof -
  let ?e = "scripted_env [Returns failure_marker, Returns failure_marker, Returns failure_marker]"
  have reply: "\<And>k. k \<le> 2 \<Longrightarrow> transcribe_audio ?e (asc ''seg_000.mp4'') k = Returns failure_marker"
  proof -
    fix k :: nat assume "k \<le> 2"
    then have "k = 0 \<or> k = 1 \<or> k = 2" by linarith
    then show "transcribe_audio ?e (asc ''seg_000.mp4'') k = Returns failure_marker"
      by (auto simp: scripted_env_def)
  qed
  have all: "\<forall>k \<le> max_retries. defective_reply
      (transcribe_audio ?e (asc ''seg_000.mp4'') (calls initial_state + k))"
    using reply marker_reply_defective by (simp add: max_retries_def initial_state_def)
  have last: "transcribe_audio ?e (asc ''seg_000.mp4'') (calls initial_state + max_retries) = Returns failure_marker"
    by (simp add: scripted_env_def max_retries_def initial_state_def)
  from retry_budget [of initial_state ?e "asc ''seg_000.mp4''"] all
  have "transcribe_segment ?e (asc ''seg_000.mp4'') initial_state =
        (Some (normalize_reply (transcribe_audio ?e (asc ''seg_000.mp4'') (calls initial_state + max_retries))),
         initial_state\<lparr>calls := calls initial_state + (max_retries + 1), has_reached_max_retries := True\<rparr>)"
    by blast
  then have result: "transcribe_segment ?e (asc ''seg_000.mp4'') initial_state =
     (Some failure_marker, \<lparr>calls = 3, has_reached_max_retries = True\<rparr>)"
    unfolding last normalize_marker by (simp add: initial_state_def max_retries_def)
  have d: "\<And>k. k \<le> 2 \<Longrightarrow> defective_reply
      (transcribe_audio ?e (asc ''seg_000.mp4'') (calls initial_state + k))"
    using all by (simp add: max_retries_def)
  let ?u = "scripted_env [Returns failure_marker, Raises, Returns (asc ''ok'')]"
  have u0: "failed_reply (transcribe_audio ?u (asc ''seg_000.mp4'') (calls initial_state + 0))"
    using marker_reply_defective by (simp add: failed_reply_def scripted_env_def initial_state_def)
  have u1: "failed_reply (transcribe_audio ?u (asc ''seg_000.mp4'') (calls initial_state + 1))"
    by (simp add: failed_reply_def scripted_env_def initial_state_def)
  have u2: "\<not> failed_reply (transcribe_audio ?u (asc ''seg_000.mp4'') (calls initial_state + 2))"
    using ok_not_defective
    by (simp add: failed_reply_def defective_reply_def scripted_env_def initial_state_def
        normalize_ok del: normalize_reply.simps)
  have before: "\<forall>j < 2. failed_reply (transcribe_audio ?u (asc ''seg_000.mp4'') (calls initial_state + j))"
  proof (intro allI impI)
    fix j :: nat assume "j < 2"
    then have "j = 0 \<or> j = 1" by linarith
    then show "failed_reply (transcribe_audio ?u (asc ''seg_000.mp4'') (calls initial_state + j))"
      using u0 u1 by auto
  qed
  have k: "(2::nat) \<le> max_retries" by (simp add: max_retries_def)
  from retry_budget [of initial_state ?u "asc ''seg_000.mp4''"] k before u2
  have "transcribe_segment ?u (asc ''seg_000.mp4'') initial_state =
          (Some (normalize_reply (transcribe_audio ?u (asc ''seg_000.mp4'') (calls initial_state + 2))),
           initial_state\<lparr>calls := calls initial_state + (2 + 1)\<rparr>)"
    by blast
  moreover have "transcribe_audio ?u (asc ''seg_000.mp4'') (calls initial_state + 2) = Returns (asc ''ok'')"
    by (simp add: scripted_env_def initial_state_def)
  ultimately have usable: "transcribe_segment ?u (asc ''seg_000.mp4'') initial_state =
     (Some (asc ''ok''), \<lparr>calls = 3, has_reached_max_retries = False\<rparr>)"
    by (simp add: normalize_ok initial_state_def del: normalize_reply.simps)
  have m: "max_retries = 2" by (simp add: max_retries_def)
  show ?thesis
    by (intro conjI d [of 0] d [of 1] d [of 2] m result u0 u1 u2 usable) simp_all
qed

lemma segment_loop_indices:
  "map segment (fst (segment_loop e i files acc st)) =
     map segment acc @ map fst (filter kept (zip [i..<i + length files] (segment_texts e files st)))"
proof (induction files arbitrary: i acc st)
  case Nil
  then show ?case by simp
next
  case (Cons f files)
  obtain t st1 where ts: "transcribe_segment e f st = (t, st1)"
    by (cases "transcribe_segment e f st")
  have upt: "[i..<i + length (f # files)] = i # [i + 1..<(i + 1) + length files]"
    using upt_conv_Cons [of i "i + length (f # files)"] by (simp del: upt_Suc)
  show ?case
    unfolding upt using Cons.IH [of "i + 1"] by (simp add: ts kept_def del: upt_Suc)
qed

lemma sorted_kept:
  "sorted_wrt (<) (map fst (filter P (zip [i..<j] ys)))"
proof -
  have "sorted_wrt (<) (map fst (zip [i..<j] ys))"
    by (simp add: map_fst_zip_take)
  then have "sorted_wrt (\<lambda>a b. fst a < fst b) (zip [i..<j] ys)"
    by (simp add: sorted_wrt_map)
  then have "sorted_wrt (\<lambda>a b. fst a < fst b) (filter P (zip [i..<j] ys))"
    by (rule sorted_wrt_filter)
  then show ?thesis by (simp add: sorted_wrt_map)
qed

lemma length_segment_texts: "length (segment_texts e files st) = length files"
  by (induction files arbitrary: st) (auto split: prod.splits)

text \<open>
  Claim C1, as amended. The result holds one entry for each segment whose final text is
  neither missing nor empty, and none for the other segments, which the loop skips. The
  segment indices of the entries are strictly increasing and lie in \<open>1..N\<close>, so the
  result has at most \<open>N\<close> entries and follows the input order.
\<close>

theorem segment_entries_in_order:
  "map segment (fst (transcribe_segments e files)) =
     map fst (filter kept (zip [1..<1 + length files] (segment_texts e files initial_state))) \<and>
   sorted_wrt (<) (map segment (fst (transcribe_segments e files))) \<and>
   set (map segment (fst (transcribe_segments e files))) \<subseteq> {1..length files} \<and>
   length (fst (transcribe_segments e files)) \<le> length files"
proof -
  let ?r = "fst (transcribe_segments e files)"
  let ?z = "zip [1..<1 + length files] (segment_texts e files initial_state)"
  have eq: "map segment ?r = map fst (filter kept ?z)"
    using segment_loop_indices [of e 1 files "[]" initial_state]
    by (simp add: transcribe_segments_def)
  have sorted: "sorted_wrt (<) (map segment ?r)"
    unfolding eq by (rule sorted_kept)
  have sub: "set (map segment ?r) \<subseteq> {1..length files}"
  proof
    fix x assume "x \<in> set (map segment ?r)"
    then obtain y where "(x, y) \<in> set ?z" unfolding eq by auto
    then have "x \<in> set [1..<1 + length files]" by (rule set_zip_leftD)
    then show "x \<in> {1..length files}" by auto
  qed
  have "length (map segment ?r) \<le> length ?z"
    unfolding eq length_map by (rule length_filter_le)
  moreover have "length ?z = length files"
    by (simp add: length_segment_texts del: upt_Suc)
  ultimately have len: "length ?r \<le> length files"
    by (simp del: upt_Suc)
  show ?thesis using eq sorted sub len by blast
qed

text \<open>
  One segment for which the API returns an empty text: the result has no entry at all.
\<close>

theorem segment_entries_counterexample:
  "transcribe_segments (scripted_env [Returns []]) [asc ''seg_000.mp4''] =
     ([], \<lparr>calls = 1, has_reached_max_retries = False\<rparr>)"
  by (simp add: transcribe_segments_def transcribe_segment_def max_retries_def upt3
      scripted_env_def initial_state_def Let_def)

section \<open>Properties of the repetition checks\<close>

lemma split_acc_word:
  "\<forall>c \<in> set w. \<not> is_space c \<Longrightarrow> split_acc (w @ rest) acc = split_acc rest (acc @ w)"
  by (induction w arbitrary: acc) simp_all

lemma space_32: "is_space 32"
  by (simp add: is_space_def)

lemma split_acc_repeat_token:
  "w \<noteq> [] \<Longrightarrow> \<forall>c \<in> set w. \<not> is_space c \<Longrightarrow> split_acc (repeat_token w n) [] = replicate n w"
proof (induction w n rule: repeat_token.induct)
  case (1 token)
  show ?case by simp
next
  case (2 token)
  have "split_acc (token @ []) [] = split_acc [] ([] @ token)"
    using 2(2) by (rule split_acc_word)
  then show ?case using 2(1) by simp
next
  case (3 token n)
  have "split_acc (token @ 32 # repeat_token token (Suc n)) [] =
        split_acc (32 # repeat_token token (Suc n)) ([] @ token)"
    using 3(3) by (rule split_acc_word)
  also have "\<dots> = token # split_acc (repeat_token token (Suc n)) []"
    using 3(2) space_32 by simp
  finally show ?case using 3 by simp
qed

lemma count_list_replicate_self: "count_list (replicate n w) w = n"
  by (induction n) simp_all

lemma word_loop_replicate:
  "2 \<le> length w \<Longrightarrow> word_loop ws (replicate k w) = (0 < k \<and> 80 \<le> count_list ws w)"
  by (induction k) auto

lemma check_single_repeat_80:
  assumes "2 \<le> length w" and "\<forall>c \<in> set w. \<not> is_space c"
  shows "check_single_utterance_repetition (repeat_token w 80)"
proof -
  have ne: "w \<noteq> []" using assms(1) by auto
  have "py_split (repeat_token w 80) = replicate 80 w"
    unfolding py_split_def using ne assms(2) by (rule split_acc_repeat_token)
  then show ?thesis
    using assms(1)
    by (simp add: check_single_utterance_repetition_def word_loop_replicate count_list_replicate_self)
qed

lemma utterance_loop_iff: "utterance_loop us \<longleftrightarrow> (\<exists>u \<in> set us. check_single_utterance_repetition u)"
  by (induction us) auto

lemma found_utterance_defective:
  assumes "u \<in> set (find_utterances t)" and "check_single_utterance_repetition u"
  shows "is_problematic_transcription t"
proof -
  have "t \<noteq> []" using assms(1) by (auto simp: find_utterances_def)
  moreover have "utterance_loop (find_utterances t)"
    using assms utterance_loop_iff by blast
  ultimately show ?thesis by (simp add: is_problematic_transcription_def)
qed

text \<open>Extraction from the one-utterance text.\<close>

lemma utterance_body_clean:
  "\<forall>c \<in> set u. c \<noteq> 34 \<and> c \<noteq> 92 \<Longrightarrow> utterance_body (u @ 34 # rest) = (u, 34 # rest)"
proof (induction u)
  case Nil
  show ?case by (cases rest) simp_all
next
  case (Cons c u)
  obtain d ds where split: "u @ 34 # rest = d # ds" by (cases "u @ 34 # rest") auto
  have "utterance_body (c # d # ds) = (case utterance_body (d # ds) of (v, r) \<Rightarrow> (c # v, r))"
    using Cons.prems by simp
  then show ?case using Cons split by simp
qed

lemma find_utterances_skip:
  "find_utterances_from (xs @ ys) (length xs) = find_utterances_from ys 0"
  by (induction xs) simp_all

lemma match_utterance_single:
  assumes "\<forall>c \<in> set u. c \<noteq> 34 \<and> c \<noteq> 92"
  shows "match_utterance (asc ''\"utterance\":\"'' @ u @ asc ''\"}'') = Some (u, length u + 14)"
proof -
  have hdr: "match_field_header (asc ''\"utterance\"'') (asc ''\"utterance\":\"'' @ u @ asc ''\"}'')
      = Some (u @ 34 # [125])"
    by (simp add: match_field_header_def asc_def is_space_def)
  have body: "utterance_body (u @ 34 # [125]) = (u, 34 # [125])"
    using assms by (rule utterance_body_clean)
  show ?thesis
    by (simp add: match_utterance_def hdr body) (simp add: asc_def)
qed

lemma find_utterances_single:
  assumes "\<forall>c \<in> set u. c \<noteq> 34 \<and> c \<noteq> 92"
  shows "find_utterances (single_utterance_text u) = [u]"
proof -
  let ?m = "asc ''\"utterance\":\"'' @ u @ asc ''\"}''"
  have first: "match_utterance (123 # ?m) = None"
    by (simp add: match_utterance_def match_field_header_def asc_def)
  have t_eq: "single_utterance_text u = 123 # ?m"
    by (simp add: single_utterance_text_def asc_def)
  obtain cs where cs: "?m = 34 # cs" and cs_def: "cs = (asc ''utterance\":\"'' @ u @ [34]) @ [125]"
    by (simp add: asc_def)
  have len: "length (asc ''utterance\":\"'' @ u @ [34]) = length u + 14 - 1"
    by (simp add: asc_def)
  have last: "find_utterances_from [125] 0 = []"
    by (simp add: match_utterance_def match_field_header_def asc_def)
  have "find_utterances_from (34 # cs) 0 = u # find_utterances_from cs (length u + 14 - 1)"
    using match_utterance_single [OF assms] cs by simp
  also have "find_utterances_from cs (length u + 14 - 1) = find_utterances_from [125] 0"
    unfolding cs_def len [symmetric] by (rule find_utterances_skip)
  finally have "find_utterances_from (34 # cs) 0 = [u]" using last by simp
  then show ?thesis
    unfolding find_utterances_def t_eq using first cs by simp
qed

lemma contains_Nil [simp]: "contains t []"
  by (cases t) simp_all

lemma prefix_append_notin:
  assumes "c \<notin> set sub"
  shows "prefix sub (zs @ c # ys) \<longleftrightarrow> prefix sub zs"
proof
  assume "prefix sub (zs @ c # ys)"
  then have "prefix sub zs \<or> (\<exists>us. sub = zs @ us \<and> prefix us (c # ys))"
    by (simp add: prefix_append)
  then show "prefix sub zs"
  proof
    assume "prefix sub zs"
    then show ?thesis .
  next
    assume "\<exists>us. sub = zs @ us \<and> prefix us (c # ys)"
    then obtain us where us: "sub = zs @ us" "prefix us (c # ys)" by blast
    show ?thesis
    proof (cases us)
      case Nil
      with us(1) show ?thesis by simp
    next
      case (Cons d ds)
      with us(2) have "d = c" by simp
      with Cons us(1) assms show ?thesis by simp
    qed
  qed
next
  assume "prefix sub zs"
  then show "prefix sub (zs @ c # ys)" by (rule prefix_prefix)
qed

lemma contains_split_char:
  assumes "c \<notin> set sub"
  shows "contains (xs @ c # ys) sub \<longleftrightarrow> contains xs sub \<or> contains ys sub"
proof (induction xs)
  case Nil
  have "prefix sub (c # ys) \<longleftrightarrow> sub = []"
    using prefix_append_notin [OF assms, of "[]" ys] by simp
  then show ?case by auto
next
  case (Cons x xs)
  have "prefix sub (x # xs @ c # ys) \<longleftrightarrow> prefix sub (x # xs)"
    using prefix_append_notin [OF assms, of "x # xs" ys] by simp
  then show ?case using Cons by auto
qed

lemma contains_append_right: "contains t (xs @ ys) \<Longrightarrow> contains t ys"
proof (induction xs arbitrary: t)
  case Nil
  then show ?case by simp
next
  case (Cons x xs)
  have drop: "\<And>s. contains s (x # xs @ ys) \<Longrightarrow> contains s (xs @ ys)"
  proof -
    fix s show "contains s (x # xs @ ys) \<Longrightarrow> contains s (xs @ ys)"
    proof (induction s)
      case Nil
      then show ?case by simp
    next
      case (Cons c cs)
      from Cons.prems have "prefix (x # xs @ ys) (c # cs) \<or> contains cs (x # xs @ ys)" by simp
      then show ?case
      proof
        assume "prefix (x # xs @ ys) (c # cs)"
        then have "prefix (xs @ ys) cs" by simp
        then have "contains cs (xs @ ys)" by (cases cs) auto
        then show ?thesis by simp
      next
        assume "contains cs (x # xs @ ys)"
        with Cons.IH show ?thesis by simp
      qed
    qed
  qed
  from Cons.prems have "contains t (xs @ ys)" using drop by simp
  then show ?case by (rule Cons.IH)
qed

lemma contains_skip_word:
  "\<forall>c \<in> set w. c \<noteq> x \<Longrightarrow> contains (w @ rest) (x # s) \<longleftrightarrow> contains rest (x # s)"
  by (induction w) auto

lemma first_word_unique:
  fixes x w :: ustr
  assumes "prefix (x @ [32]) (w @ 32 # rest)" and "32 \<notin> set x" and "32 \<notin> set w"
  shows "x = w"
proof -
  from assms(1) obtain zs where eq: "w @ 32 # rest = x @ 32 # zs"
    by (auto simp: prefix_def)
  have "takeWhile (\<lambda>c. c \<noteq> 32) (w @ 32 # rest) = w"
    using assms(3) by (auto simp: takeWhile_tail)
  moreover have "takeWhile (\<lambda>c. c \<noteq> 32) (x @ 32 # zs) = x"
    using assms(2) by (auto simp: takeWhile_tail)
  ultimately show ?thesis using eq by simp
qed

lemma spaced_word_in_repeat:
  "32 \<notin> set w \<Longrightarrow> 32 \<notin> set (x::ustr) \<Longrightarrow> contains (repeat_token w n) (32 # x @ [32]) \<Longrightarrow> x = w"
proof (induction w n rule: repeat_token.induct)
  case (1 token)
  then show ?case by simp
next
  case (2 token)
  from contains_set [OF 2(3)] 2(1) show ?case by auto
next
  case (3 token n)
  have "contains (32 # repeat_token token (Suc n)) (32 # x @ [32])"
    using 3(4) 3(2) contains_skip_word [of token 32 "32 # repeat_token token (Suc n)" "x @ [32]"]
    by auto
  then have "prefix (x @ [32]) (repeat_token token (Suc n)) \<or>
      contains (repeat_token token (Suc n)) (32 # x @ [32])" by simp
  then show ?case
  proof
    assume p: "prefix (x @ [32]) (repeat_token token (Suc n))"
    show ?thesis
    proof (cases n)
      case 0
      with p have "prefix (x @ [32]) token" by simp
      then have "32 \<in> set token" using set_mono_prefix by fastforce
      with 3(2) show ?thesis by simp
    next
      case (Suc m)
      with p have "prefix (x @ [32]) (token @ 32 # repeat_token token (Suc m))" by simp
      then show ?thesis using 3(3) 3(2) by (rule first_word_unique)
    qed
  next
    assume "contains (repeat_token token (Suc n)) (32 # x @ [32])"
    with 3 show ?thesis by simp
  qed
qed

lemma no_marker_in_repeat:
  assumes "\<forall>c \<in> set w. \<not> is_space c"
  shows "\<not> contains (repeat_token w n) failure_marker"
proof
  assume c: "contains (repeat_token w n) failure_marker"
  have w: "32 \<notin> set w" using assms space_32 by auto
  have m1: "failure_marker = asc ''Take minutes'' @ (32 # asc ''of'' @ [32]) @ asc ''the meeting''"
    by (simp add: failure_marker_def asc_def)
  have m2: "failure_marker = asc ''Take minutes of'' @ (32 # asc ''the'' @ [32]) @ asc ''meeting''"
    by (simp add: failure_marker_def asc_def)
  have "contains (repeat_token w n) (32 # asc ''of'' @ [32])"
    using c unfolding m1 by (blast dest: contains_append_right contains_append_left)
  then have "asc ''of'' = w"
    using w by (intro spaced_word_in_repeat [of w _ n]) (simp_all add: asc_def)
  moreover have "contains (repeat_token w n) (32 # asc ''the'' @ [32])"
    using c unfolding m2 by (blast dest: contains_append_right contains_append_left)
  then have "asc ''the'' = w"
    using w by (intro spaced_word_in_repeat [of w _ n]) (simp_all add: asc_def)
  ultimately have "asc ''of'' = asc ''the''" by simp
  then show False by (simp add: asc_def)
qed

lemma contains_repeat_token:
  "32 \<notin> set sub \<Longrightarrow> sub \<noteq> [] \<Longrightarrow> contains (repeat_token w n) sub \<Longrightarrow> contains w sub"
proof (induction w n rule: repeat_token.induct)
  case (1 token)
  then show ?case by simp
next
  case (2 token)
  then show ?case by simp
next
  case (3 token n)
  from 3(4) have "contains token sub \<or> contains (repeat_token token (Suc n)) sub"
    using contains_split_char [OF 3(2), of token "repeat_token token (Suc n)"] by simp
  with 3 show ?case by blast
qed

lemma set_repeat_token: "set (repeat_token w n) \<subseteq> insert 32 (set w)"
  by (induction w n rule: repeat_token.induct) auto

lemma contains_single_utterance_text:
  assumes "34 \<notin> set sub"
  shows "contains (single_utterance_text u) sub \<longleftrightarrow>
         contains [123] sub \<or> contains (asc ''utterance'') sub \<or> contains [58] sub \<or>
         contains u sub \<or> contains [125] sub"
proof -
  have "single_utterance_text u =
      [123] @ 34 # (asc ''utterance'' @ 34 # ([58] @ 34 # (u @ 34 # [125])))"
    by (simp add: single_utterance_text_def asc_def)
  then show ?thesis
    by (simp only: contains_split_char [OF assms])
qed

lemma no_marker_in_single_utterance_text:
  assumes "\<forall>c \<in> set w. \<not> is_space c"
  shows "\<not> contains (single_utterance_text (repeat_token w n)) failure_marker"
proof -
  have q: "34 \<notin> set failure_marker" by (simp add: failure_marker_def asc_def)
  have "\<not> contains [123] failure_marker" "\<not> contains (asc ''utterance'') failure_marker"
    "\<not> contains [58] failure_marker" "\<not> contains [125] failure_marker"
    by (simp_all add: failure_marker_def asc_def)
  with no_marker_in_repeat [OF assms, of n] show ?thesis
    by (simp add: contains_single_utterance_text [OF q])
qed

lemma phrase_facts:
  assumes "phrase \<in> set problem_phrases"
  shows "phrase \<noteq> []" "32 \<notin> set phrase" "34 \<notin> set phrase"
    "\<not> contains [123] phrase" "\<not> contains (asc ''utterance'') phrase"
    "\<not> contains [58] phrase" "\<not> contains [125] phrase"
  using assms by (auto simp: problem_phrases_def asc_def)

lemma no_phrase_in_texts:
  assumes "\<forall>phrase \<in> set problem_phrases. \<not> contains w phrase"
  shows "\<forall>phrase \<in> set problem_phrases. phrase \<noteq> [] \<and> \<not> contains (repeat_token w n) phrase"
    and "\<forall>phrase \<in> set problem_phrases. phrase \<noteq> [] \<and>
           \<not> contains (single_utterance_text (repeat_token w n)) phrase"
proof -
  show a: "\<forall>phrase \<in> set problem_phrases. phrase \<noteq> [] \<and> \<not> contains (repeat_token w n) phrase"
  proof
    fix phrase assume p: "phrase \<in> set problem_phrases"
    then have "\<not> contains w phrase" using assms by blast
    then have "\<not> contains (repeat_token w n) phrase"
      using contains_repeat_token [OF phrase_facts(2) [OF p] phrase_facts(1) [OF p]] by blast
    with phrase_facts(1) [OF p] show "phrase \<noteq> [] \<and> \<not> contains (repeat_token w n) phrase" by simp
  qed
  show "\<forall>phrase \<in> set problem_phrases. phrase \<noteq> [] \<and>
           \<not> contains (single_utterance_text (repeat_token w n)) phrase"
  proof
    fix phrase assume p: "phrase \<in> set problem_phrases"
    from a p have "\<not> contains (repeat_token w n) phrase" by blast
    with phrase_facts [OF p]
    show "phrase \<noteq> [] \<and> \<not> contains (single_utterance_text (repeat_token w n)) phrase"
      by (simp add: contains_single_utterance_text)
  qed
qed

lemma clean_repeat_token:
  assumes "\<forall>c \<in> set w. c \<noteq> 34 \<and> c \<noteq> 92"
  shows "\<forall>c \<in> set (repeat_token w n). c \<noteq> 34 \<and> c \<noteq> 92"
  using assms set_repeat_token [of w n] by auto

lemma repeat_79_not_defective:
  assumes len: "2 \<le> length w" and sp: "\<forall>c \<in> set w. \<not> is_space c"
    and clean: "\<forall>c \<in> set w. c \<noteq> 34 \<and> c \<noteq> 92"
    and nofill: "\<forall>phrase \<in> set problem_phrases. \<not> contains w phrase"
  shows "\<not> is_problematic_transcription (single_utterance_text (repeat_token w 79))"
proof -
  let ?u = "repeat_token w 79"
  have ne: "w \<noteq> []" using len by auto
  have found: "find_utterances (single_utterance_text ?u) = [?u]"
    using clean_repeat_token [OF clean] by (rule find_utterances_single)
  have words: "py_split ?u = replicate 79 w"
    unfolding py_split_def using ne sp by (rule split_acc_repeat_token)
  have "\<not> word_loop (replicate 79 w) (replicate 79 w)"
    using len by (simp add: word_loop_replicate count_list_replicate_self)
  moreover have "\<not> utterance_phrase_loop ?u problem_phrases"
    using no_phrase_in_texts(1) [OF nofill] by (rule utterance_phrase_loop_no_phrase)
  ultimately have single: "\<not> check_single_utterance_repetition ?u"
    by (simp add: check_single_utterance_repetition_def words)
  have whole: "\<not> check_whole_text_repetition (single_utterance_text ?u)"
    unfolding check_whole_text_repetition_def
    using no_phrase_in_texts(2) [OF nofill] by (rule whole_text_loop_no_phrase)
  show ?thesis
    using no_marker_in_single_utterance_text [OF sp, of 79] found single whole
    by (simp add: is_problematic_transcription_def)
qed

lemma repeat_80_defective:
  assumes len: "2 \<le> length w" and sp: "\<forall>c \<in> set w. \<not> is_space c"
    and clean: "\<forall>c \<in> set w. c \<noteq> 34 \<and> c \<noteq> 92"
  shows "is_problematic_transcription (single_utterance_text (repeat_token w 80))"
proof -
  have "find_utterances (single_utterance_text (repeat_token w 80)) = [repeat_token w 80]"
    using clean_repeat_token [OF clean] by (rule find_utterances_single)
  then have "repeat_token w 80 \<in> set (find_utterances (single_utterance_text (repeat_token w 80)))"
    by simp
  then show ?thesis
    using check_single_repeat_80 [OF len sp] by (rule found_utterance_defective)
qed

text \<open>
  Claim C4, as amended. Let the token have at least two characters and no whitespace.
  Any text in which the detector finds the utterance made of the token repeated 80 times
  is defective; in particular the one-utterance text around 80 repetitions is, when the
  token has no quote or backslash (so that the utterance pattern captures it whole).
  For 79 repetitions the one-utterance text is not defective provided the token contains
  none of the filler phrases: a token that contains one reaches the phrase threshold of
  70, as \<open>repetition_boundary_counterexample\<close> shows.
\<close>

theorem repetition_boundary:
  assumes "2 \<le> length token" and "\<forall>c \<in> set token. \<not> is_space c"
  shows "(\<forall>t. repeat_token token 80 \<in> set (find_utterances t) \<longrightarrow> is_problematic_transcription t) \<and>
         ((\<forall>c \<in> set token. c \<noteq> 34 \<and> c \<noteq> 92) \<longrightarrow>
            is_problematic_transcription (single_utterance_text (repeat_token token 80))) \<and>
         ((\<forall>c \<in> set token. c \<noteq> 34 \<and> c \<noteq> 92) \<and>
          (\<forall>phrase \<in> set problem_phrases. \<not> contains token phrase) \<longrightarrow>
            \<not> is_problematic_transcription (single_utterance_text (repeat_token token 79)))"
proof (intro conjI allI impI)
  fix t assume "repeat_token token 80 \<in> set (find_utterances t)"
  then show "is_problematic_transcription t"
    using check_single_repeat_80 [OF assms] by (rule found_utterance_defective)
next
  assume "\<forall>c \<in> set token. c \<noteq> 34 \<and> c \<noteq> 92"
  with assms show "is_problematic_transcription (single_utterance_text (repeat_token token 80))"
    by (rule repeat_80_defective)
next
  assume "(\<forall>c \<in> set token. c \<noteq> 34 \<and> c \<noteq> 92) \<and>
          (\<forall>phrase \<in> set problem_phrases. \<not> contains token phrase)"
  then have c: "\<forall>c \<in> set token. c \<noteq> 34 \<and> c \<noteq> 92"
    and f: "\<forall>phrase \<in> set problem_phrases. \<not> contains token phrase" by simp_all
  from assms c f
  show "\<not> is_problematic_transcription (single_utterance_text (repeat_token token 79))"
    by (rule repeat_79_not_defective)
qed

theorem repetition_boundary_witness:
  "2 \<le> length (asc ''ab'') \<and> list_all (\<lambda>c. \<not> is_space c) (asc ''ab'') \<and>
   list_all (\<lambda>c. c \<noteq> 34 \<and> c \<noteq> 92) (asc ''ab'') \<and>
   list_all (\<lambda>phrase. \<not> contains (asc ''ab'') phrase) problem_phrases \<and>
   repeat_token (asc ''ab'') 80 \<in> set (find_utterances (single_utterance_text (repeat_token (asc ''ab'') 80))) \<and>
   is_problematic_transcription (single_utterance_text (repeat_token (asc ''ab'') 80)) \<and>
   \<not> is_problematic_transcription (single_utterance_text (repeat_token (asc ''ab'') 79))"
proof -
  have h1: "2 \<le> length (asc ''ab'')" by (simp add: asc_def)
  have h2: "\<forall>c \<in> set (asc ''ab''). \<not> is_space c" by (simp add: asc_def is_space_def)
  have h3: "\<forall>c \<in> set (asc ''ab''). c \<noteq> 34 \<and> c \<noteq> 92" by (simp add: asc_def)
  have h4: "\<forall>phrase \<in> set problem_phrases. \<not> contains (asc ''ab'') phrase"
    by (simp add: problem_phrases_def asc_def)
  have h5: "repeat_token (asc ''ab'') 80 \<in>
      set (find_utterances (single_utterance_text (repeat_token (asc ''ab'') 80)))"
    unfolding find_utterances_single [OF clean_repeat_token [OF h3, of 80]] by simp
  note main = repetition_boundary [OF h1 h2]
  from main have c1: "is_problematic_transcription (single_utterance_text (repeat_token (asc ''ab'') 80))"
    using h5 by (elim conjE allE [of _ "single_utterance_text (repeat_token (asc ''ab'') 80)"]) (rule mp)
  from main h3 h4
  have c2: "\<not> is_problematic_transcription (single_utterance_text (repeat_token (asc ''ab'') 79))"
    by (elim conjE) (rule mp, assumption, rule conjI)
  show ?thesis
    using h1 h2 h3 h4 h5 c1 c2 by (simp only: list_all_iff simp_thms)
qed

text \<open>Counting a token in its own repetition.\<close>

lemma count_from_skip: "count_from sub (xs @ ys) (length xs) = count_from sub ys 0"
  by (induction xs) simp_all

lemma count_from_self:
  assumes "w \<noteq> []"
  shows "count_from w (w @ rest) 0 = 1 + count_from w rest 0"
proof -
  obtain c w' where w: "w = c # w'" using assms by (cases w) auto
  have "count_from w (c # w' @ rest) 0 = 1 + count_from w (w' @ rest) (length w - 1)"
    by (simp add: w)
  also have "count_from w (w' @ rest) (length w - 1) = count_from w rest 0"
    using count_from_skip [of w w' rest] by (simp add: w)
  finally show ?thesis by (simp add: w)
qed

lemma count_from_repeat_token:
  "w \<noteq> [] \<Longrightarrow> 32 \<notin> set w \<Longrightarrow> count_from w (repeat_token w n) 0 = n"
proof (induction w n rule: repeat_token.induct)
  case (1 token)
  show ?case by simp
next
  case (2 token)
  show ?case using count_from_self [OF 2(1), of "[]"] by simp
next
  case (3 token n)
  have "\<not> prefix token (32 # repeat_token token (Suc n))"
    using 3(2,3) by (cases token) auto
  then have "count_from token (32 # repeat_token token (Suc n)) 0 = Suc n"
    using 3 by simp
  then show ?case using count_from_self [OF 3(2), of "32 # repeat_token token (Suc n)"] by simp
qed

text \<open>
  The token is the filler phrase U+3046 U+3093 U+3002 itself (three characters, no
  whitespace): 79 repetitions in one utterance are below the word threshold of 80 but
  reach the phrase threshold of 70, so the text is defective.
\<close>

theorem repetition_boundary_counterexample:
  "2 \<le> length [12358, 12435, 12290 :: nat] \<and>
   is_problematic_transcription (single_utterance_text (repeat_token [12358, 12435, 12290] 79))"
proof -
  let ?w = "[12358, 12435, 12290] :: ustr"
  let ?u = "repeat_token ?w 79"
  have clean: "\<forall>c \<in> set ?w. c \<noteq> 34 \<and> c \<noteq> 92" by simp
  have "find_utterances (single_utterance_text ?u) = [?u]"
    using clean_repeat_token [OF clean] by (rule find_utterances_single)
  then have found: "?u \<in> set (find_utterances (single_utterance_text ?u))" by simp
  have "py_count ?u ?w = 79"
    using count_from_repeat_token [of ?w 79] by (simp add: py_count_def)
  then have "utterance_phrase_loop ?u problem_phrases"
    by (simp add: problem_phrases_def)
  then have "check_single_utterance_repetition ?u"
    by (simp add: check_single_utterance_repetition_def)
  with found have "is_problematic_transcription (single_utterance_text ?u)"
    by (rule found_utterance_defective)
  then show ?thesis by simp
qed

section \<open>Properties of the remapper, the cleanup and the transcriber\<close>

lemma count_from_concat_replicate:
  "w \<noteq> [] \<Longrightarrow> count_from w (concat (replicate n w)) 0 = n"
  by (induction n) (simp_all add: count_from_self)

lemma marker_loop_unchanged:
  "py_count t speaker_marker \<le> 60 \<Longrightarrow> text_for_title t = t"
  by (simp add: text_for_title_def Let_def)

text \<open>
  Claim C5, as amended. The remap request always holds the whole transcript: it is the
  prompt, two newlines and the transcript text, whatever the number of speaker markers,
  and the mapping returned depends on the reply to that request only. The limit of 60
  markers belongs to the title prompt; there a transcript with at most 60 markers (none
  included) is sent whole.
\<close>

theorem remap_request_full_text:
  "drop (length prompt + 2) (combined_prompt prompt t) = t \<and>
   (gemini_api env = Inr summarize \<and> remap_prompt env = Inr prompt \<longrightarrow>
      get_speaker_mapping env t =
        (case summarize (prompt @ [10, 10] @ t) of
           Inl err \<Rightarrow> Inr []
         | Inr ai_response \<Rightarrow>
             (case parse_mapping_response env ai_response of
                Inl err \<Rightarrow> Inr []
              | Inr mapping \<Rightarrow> Inr mapping))) \<and>
   (py_count t speaker_marker \<le> 60 \<longrightarrow> text_for_title t = t)"
  by (simp add: combined_prompt_def get_speaker_mapping_def marker_loop_unchanged)

text \<open>
  A transcript of 61 markers: the remap request carries all 610 characters of it, not
  the 600 characters that precede the 61st marker.
\<close>

theorem remap_request_counterexample:
  "60 < py_count sixty_one_markers speaker_marker \<and>
   drop (length (asc ''remap'') + 2) (combined_prompt (asc ''remap'') sixty_one_markers) = sixty_one_markers \<and>
   length sixty_one_markers = 610 \<and>
   take 600 sixty_one_markers = concat (replicate 60 speaker_marker) \<and>
   take 600 sixty_one_markers \<noteq> sixty_one_markers"
proof -
  have ne: "speaker_marker \<noteq> []" by (simp add: speaker_marker_def asc_def)
  have c: "py_count sixty_one_markers speaker_marker = 61"
    using count_from_concat_replicate [OF ne, of 61] ne
    by (simp add: py_count_def sixty_one_markers_def)
  have l: "length sixty_one_markers = 610"
    by (simp add: sixty_one_markers_def length_concat speaker_marker_def asc_def sum_list_replicate)
  have "length (take 600 sixty_one_markers) = 600" using l by simp
  then have d: "take 600 sixty_one_markers \<noteq> sixty_one_markers" using l by auto
  have "replicate 61 speaker_marker = replicate 60 speaker_marker @ [speaker_marker]"
  proof -
    have "replicate 61 speaker_marker = replicate (Suc 60) speaker_marker" by simp
    also have "\<dots> = speaker_marker # replicate 60 speaker_marker" by (rule replicate_Suc)
    also have "\<dots> = replicate 60 speaker_marker @ [speaker_marker]"
      by (rule replicate_append_same [symmetric])
    finally show ?thesis .
  qed
  then have s: "sixty_one_markers = concat (replicate 60 speaker_marker) @ speaker_marker"
    by (simp add: sixty_one_markers_def)
  have len: "length (concat (replicate 60 speaker_marker)) = 600"
    by (simp add: length_concat speaker_marker_def asc_def sum_list_replicate)
  have t: "take 600 sixty_one_markers = concat (replicate 60 speaker_marker)"
    unfolding s using len by simp
  show ?thesis
  proof (intro conjI)
    show "60 < py_count sixty_one_markers speaker_marker" using c by simp
    show "drop (length (asc ''remap'') + 2) (combined_prompt (asc ''remap'') sixty_one_markers)
        = sixty_one_markers"
      by (simp add: combined_prompt_def)
    show "length sixty_one_markers = 610" by (rule l)
    show "take 600 sixty_one_markers = concat (replicate 60 speaker_marker)" by (rule t)
    show "take 600 sixty_one_markers \<noteq> sixty_one_markers" by (rule d)
  qed
qed

theorem remap_request_full_text_witness:
  "gemini_api (fixed_remap_env (Inr (asc ''{}'')) (\<lambda>s. Inr (PDict []))) = Inr (\<lambda>prompt. Inr (asc ''{}'')) \<and>
   remap_prompt (fixed_remap_env (Inr (asc ''{}'')) (\<lambda>s. Inr (PDict []))) = Inr (asc ''remap'') \<and>
   py_count (asc ''{\"speaker\": \"A\"}'') speaker_marker \<le> 60 \<and>
   get_speaker_mapping (fixed_remap_env (Inr (asc ''{}'')) (\<lambda>s. Inr (PDict []))) (asc ''{\"speaker\": \"A\"}'') = Inr [] \<and>
   text_for_title (asc ''{\"speaker\": \"A\"}'') = asc ''{\"speaker\": \"A\"}''"
proof -
  let ?env = "fixed_remap_env (Inr (asc ''{}'')) (\<lambda>s. Inr (PDict []))"
  let ?t = "asc ''{\"speaker\": \"A\"}''"
  have a: "gemini_api ?env = Inr (\<lambda>prompt. Inr (asc ''{}''))"
    and b: "remap_prompt ?env = Inr (asc ''remap'')"
    by (simp_all add: fixed_remap_env_def)
  have c: "py_count ?t speaker_marker \<le> 60"
    by (simp add: py_count_def speaker_marker_def asc_def)
  have p: "parse_mapping_response ?env (asc ''{}'') = Inr []"
    by (simp add: parse_mapping_response_def fixed_remap_env_def)
  note main = remap_request_full_text [of "asc ''remap''" ?t ?env "\<lambda>prompt. Inr (asc ''{}'')"]
  from main a b have "get_speaker_mapping ?env ?t = Inr []" by (simp add: p)
  moreover from main c have "text_for_title ?t = ?t" by blast
  ultimately show ?thesis using a b c by blast
qed

text \<open>
  Claim C6. The speaker-mapping step never raises. When the API cannot be constructed,
  when the call fails, or when the response does not parse as a JSON object, it returns
  the empty mapping; and rewriting with the empty mapping returns the transcript
  unchanged.
\<close>

theorem remap_failure_gives_empty_mapping:
  "(\<exists>mapping. get_speaker_mapping env t = Inr mapping) \<and>
   ((\<exists>err. gemini_api env = Inl err) \<longrightarrow> get_speaker_mapping env t = Inr []) \<and>
   (\<forall>summarize prompt.
      gemini_api env = Inr summarize \<and> remap_prompt env = Inr prompt \<longrightarrow>
        ((\<exists>err. summarize (combined_prompt prompt t) = Inl err) \<longrightarrow>
           get_speaker_mapping env t = Inr []) \<and>
        (\<forall>ai_response.
           summarize (combined_prompt prompt t) = Inr ai_response \<and>
           (\<forall>items. json_loads env (extract_json_str ai_response) \<noteq> Inr (PDict items)) \<longrightarrow>
             get_speaker_mapping env t = Inr [])) \<and>
   replace_speakers env t [] = Inr t"
proof (intro conjI allI impI)
  show "\<exists>mapping. get_speaker_mapping env t = Inr mapping"
    by (simp add: get_speaker_mapping_def split: sum.splits)
next
  assume "\<exists>err. gemini_api env = Inl err"
  then show "get_speaker_mapping env t = Inr []"
    by (auto simp: get_speaker_mapping_def)
next
  fix summarize prompt
  assume env: "gemini_api env = Inr summarize \<and> remap_prompt env = Inr prompt"
    and "\<exists>err. summarize (combined_prompt prompt t) = Inl err"
  then show "get_speaker_mapping env t = Inr []"
    by (auto simp: get_speaker_mapping_def)
next
  fix summarize prompt ai_response
  assume env: "gemini_api env = Inr summarize \<and> remap_prompt env = Inr prompt"
    and r: "summarize (combined_prompt prompt t) = Inr ai_response \<and>
           (\<forall>items. json_loads env (extract_json_str ai_response) \<noteq> Inr (PDict items))"
  have "parse_mapping_response env ai_response = Inr [] \<or>
        (\<exists>err. parse_mapping_response env ai_response = Inl err)"
    using r by (auto simp: parse_mapping_response_def split: sum.splits pyval.splits)
  then show "get_speaker_mapping env t = Inr []"
    using env r by (auto simp: get_speaker_mapping_def)
next
  show "replace_speakers env t [] = Inr t"
    by (simp add: replace_speakers_def)
qed

theorem remap_failure_gives_empty_mapping_witness:
  "gemini_api (fixed_remap_env (Inl GeminiAPIError) (\<lambda>s. Inl JSONDecodeError)\<lparr>gemini_api := Inl GeminiAPIError\<rparr>)
     = Inl GeminiAPIError \<and>
   get_speaker_mapping (fixed_remap_env (Inl GeminiAPIError) (\<lambda>s. Inl JSONDecodeError)\<lparr>gemini_api := Inl GeminiAPIError\<rparr>)
     (asc ''{\"speaker\": \"A\"}'') = Inr [] \<and>
   gemini_api (fixed_remap_env (Inl GeminiAPIError) (\<lambda>s. Inl JSONDecodeError)) = Inr (\<lambda>prompt. Inl GeminiAPIError) \<and>
   remap_prompt (fixed_remap_env (Inl GeminiAPIError) (\<lambda>s. Inl JSONDecodeError)) = Inr (asc ''remap'') \<and>
   get_speaker_mapping (fixed_remap_env (Inl GeminiAPIError) (\<lambda>s. Inl JSONDecodeError))
     (asc ''{\"speaker\": \"A\"}'') = Inr [] \<and>
   gemini_api (fixed_remap_env (Inr (asc ''no mapping'')) (\<lambda>s. Inl JSONDecodeError)) = Inr (\<lambda>prompt. Inr (asc ''no mapping'')) \<and>
   remap_prompt (fixed_remap_env (Inr (asc ''no mapping'')) (\<lambda>s. Inl JSONDecodeError)) = Inr (asc ''remap'') \<and>
   json_loads (fixed_remap_env (Inr (asc ''no mapping'')) (\<lambda>s. Inl JSONDecodeError))
       (extract_json_str (asc ''no mapping'')) = Inl JSONDecodeError \<and>
   get_speaker_mapping (fixed_remap_env (Inr (asc ''no mapping'')) (\<lambda>s. Inl JSONDecodeError))
     (asc ''{\"speaker\": \"A\"}'') = Inr [] \<and>
   replace_speakers (fixed_remap_env (Inr (asc ''no mapping'')) (\<lambda>s. Inl JSONDecodeError))
     (asc ''{\"speaker\": \"A\"}'') [] = Inr (asc ''{\"speaker\": \"A\"}'')"
proof -
  let ?t = "asc ''{\"speaker\": \"A\"}''"
  let ?a = "fixed_remap_env (Inl GeminiAPIError) (\<lambda>s. Inl JSONDecodeError)"
  let ?z = "?a\<lparr>gemini_api := Inl GeminiAPIError\<rparr>"
  let ?b = "fixed_remap_env (Inr (asc ''no mapping'')) (\<lambda>s. Inl JSONDecodeError)"
  have a0: "gemini_api ?z = Inl GeminiAPIError" by simp
  have a1: "gemini_api ?a = Inr (\<lambda>prompt. Inl GeminiAPIError)"
    by (simp add: fixed_remap_env_def)
  have a2: "remap_prompt ?a = Inr (asc ''remap'')"
    by (simp add: fixed_remap_env_def)
  have b1: "gemini_api ?b = Inr (\<lambda>prompt. Inr (asc ''no mapping''))"
    by (simp add: fixed_remap_env_def)
  have b2: "remap_prompt ?b = Inr (asc ''remap'')"
    by (simp add: fixed_remap_env_def)
  have b3: "\<forall>items. json_loads ?b (extract_json_str (asc ''no mapping'')) \<noteq> Inr (PDict items)"
    by (simp add: fixed_remap_env_def)
  have r0: "get_speaker_mapping ?z ?t = Inr []"
    using remap_failure_gives_empty_mapping [of ?z ?t] a0 by blast
  have r1: "get_speaker_mapping ?a ?t = Inr []"
    using remap_failure_gives_empty_mapping [of ?a ?t] a1 a2 by blast
  have r2: "get_speaker_mapping ?b ?t = Inr []"
    using remap_failure_gives_empty_mapping [of ?b ?t] b1 b2 b3 by blast
  have r3: "replace_speakers ?b ?t [] = Inr ?t"
    using remap_failure_gives_empty_mapping [of ?b ?t] by blast
  have b4: "json_loads ?b (extract_json_str (asc ''no mapping'')) = Inl JSONDecodeError"
    by (simp add: fixed_remap_env_def)
  show ?thesis
    by (intro conjI a0 a1 a2 b1 b2 b4 r0 r1 r2 r3)
qed

lemma suffix_mp3: "py_suffix (asc ''segment_000.mp3'') = asc ''.mp3''"
  by (simp add: py_suffix_def asc_def)

text \<open>
  Claim C9 does not hold on \<open>AudioProcessor.process_audio_file\<close>: when the file
  system refuses to delete a segment file, \<open>cleanup_temp_files\<close> raises, and
  \<open>process_audio_file\<close> raises instead of returning the output that
  \<open>integrate_results\<close> has already produced.
\<close>

theorem cleanup_failure_is_fatal:
  "cleanup_temp_files locked_segment_dir = Inl OSError \<and>
   process_audio_file_end (Inr (asc ''out/transcription_summary.txt'')) locked_segment_dir = Inl OSError"
  by (simp add: process_audio_file_end_def cleanup_temp_files_def locked_segment_dir_def suffix_mp3)

text \<open>
  The cleanup at the end of \<open>_process_with_gemini\<close> behaves as the claim says: a
  failure is not fatal there.
\<close>

lemma gemini_cleanup_failure_is_not_fatal:
  "process_with_gemini_end result (Inl OSError) = Inr result"
  by (simp add: process_with_gemini_end_def)

lemma cleanup_success_returns_output:
  "cleanup_temp_files d = Inr d' \<Longrightarrow> process_audio_file_end (Inr final_output) d = Inr final_output"
  by (simp add: process_audio_file_end_def)

text \<open>
  Claim C10. A successful \<open>GeminiTranscriber.transcribe_audio\<close> returns exactly one
  conversation entry; its speaker is the constant U+8A71 U+8005 and its utterance is the
  whole text that the API returned, which is not parsed for speakers.
\<close>

theorem transcriber_single_conversation:
  assumes "transcriber_transcribe_audio service file = Inr conversations"
  shows "\<exists>formatted_text.
           api_transcribe service (media_path file) (suffix_lower file \<in> set video_extensions)
             = Inr (Some formatted_text) \<and>
           conversations = [\<lparr>speaker = [35441, 32773], utterance = PStr formatted_text\<rparr>] \<and>
           length conversations = 1"
  using assms
  by (auto simp: transcriber_transcribe_audio_def process_media_def dict_get_def Let_def asc_def
      split: if_splits sum.splits option.splits)

theorem transcriber_single_conversation_witness:
  "transcriber_transcribe_audio sample_service sample_file =
     Inr [\<lparr>speaker = [35441, 32773],
           utterance = PStr (asc ''{\"conversations\": [{\"speaker\": \"A\", \"utterance\": \"hi\"}, {\"speaker\": \"B\", \"utterance\": \"ok\"}]}'')\<rparr>]"
proof -
  have ok: "\<exists>c. transcriber_transcribe_audio sample_service sample_file = Inr c"
    by (simp add: transcriber_transcribe_audio_def process_media_def dict_get_def Let_def asc_def
        sample_service_def sample_file_def valid_extensions_def video_extensions_def)
  then obtain c where c: "transcriber_transcribe_audio sample_service sample_file = Inr c" by blast
  from transcriber_single_conversation [OF c] c show ?thesis
    by (auto simp: sample_service_def)
qed

section \<open>Idempotence of the speaker rewrite\<close>











lemma render_pairs_head: "render_pairs qs = [] \<or> hd (render_pairs qs) = 34"
  by (cases qs) auto






lemma replacement_as_pairs:
  "replacement new @ s' @ t = render_pairs [(asc ''speaker'', asc '': ''), (new, s')] @ t"
  by (simp add: replacement_def asc_def)



















text \<open>
  A text that is not well quoted: the closing quote of the first label is at once the
  opening quote of a second key. The first application leaves the second field alone,
  the second application rewrites it.
\<close>

lemma shared_quote_not_idempotent:
  "replace_speakers (fixed_remap_env (Inr []) (\<lambda>s. Inl JSONDecodeError))
     (asc ''\"speaker\": \"A\"speaker\": \"A\"'') [(asc ''A'', PStr (asc ''X''))]
     = Inr (asc ''\"speaker\": \"X\"speaker\": \"A\"'') \<and>
   replace_speakers (fixed_remap_env (Inr []) (\<lambda>s. Inl JSONDecodeError))
     (asc ''\"speaker\": \"X\"speaker\": \"A\"'') [(asc ''A'', PStr (asc ''X''))]
     = Inr (asc ''\"speaker\": \"X\"speaker\": \"X\"'')"
  by (simp add: replace_speakers_def skip_patterns_def fixed_remap_env_def
      replacement_def match_speaker_def match_field_header_def asc_def is_space_def)

end
